theory Spec2Isabelle
  imports Main
begin

section \<open>Values and identity\<close>

text \<open>
  The values a signal can hold. Primitives are compared by value and objects by
  reference, which is what \<^verbatim>\<open>Object.is\<close> does; numbers are integers here (no NaN and
  no signed zero). Functions are not values of the model: a setter argument that is a
  function is the \<open>Updater\<close> case of \<open>setarg\<close> below.
\<close>

datatype val = VUndef | VNull | VBool bool | VNum int | VStr string | VRef nat

definition object_is :: "val \<Rightarrow> val \<Rightarrow> bool" where
  "object_is a b = (a = b)"

text \<open>
  Objects live in a heap, and \<open>VRef a\<close> is the object at address \<open>a\<close>. A property key
  is an array index or any other string. A plain object is the list of its own
  enumerable properties in the order they were created, and an array the list of its
  elements (arrays of the model carry no other own property than \<^verbatim>\<open>length\<close>).
\<close>

datatype key = Name string | Index nat

datatype obj = Obj "(key \<times> val) list" | Arr "val list"

section \<open>Insertion-ordered sets\<close>

text \<open>
  A JavaScript \<^verbatim>\<open>Set\<close> is its list of entries in insertion order. \<^verbatim>\<open>delete\<close> empties
  the entry in place and \<^verbatim>\<open>add\<close> appends, so that an iteration in progress, which walks
  the entries by position, skips what was deleted and reaches what was added meanwhile.
  The keys of the tracker's \<^verbatim>\<open>Map\<close> of subscriptions are kept the same way; the
  unsubscribe handle stored under a key is determined by the key and the tracker.
\<close>

type_synonym 'a jsset = "'a option list"

definition set_has :: "'a \<Rightarrow> 'a jsset \<Rightarrow> bool" where
  "set_has x xs = (Some x \<in> set xs)"

definition set_add :: "'a \<Rightarrow> 'a jsset \<Rightarrow> 'a jsset" where
  "set_add x xs = (if set_has x xs then xs else xs @ [Some x])"

definition set_delete :: "'a \<Rightarrow> 'a jsset \<Rightarrow> 'a jsset" where
  "set_delete x xs = map (\<lambda>e. if e = Some x then None else e) xs"

fun set_values :: "'a jsset \<Rightarrow> 'a list" where
  "set_values [] = []"
| "set_values (None # xs) = set_values xs"
| "set_values (Some x # xs) = x # set_values xs"

definition set_size :: "'a jsset \<Rightarrow> nat" where
  "set_size xs = length (set_values xs)"

section \<open>The reactive graph\<close>

text \<open>
  \<open>dep\<close> names a \<^verbatim>\<open>Subscribable\<close> (a \<^verbatim>\<open>SignalSource\<close> or a \<^verbatim>\<open>MemoSource\<close>).
  \<open>sub\<close> names a \<^verbatim>\<open>DependencyTracker\<close> together with the one callback it subscribes
  with (\<^verbatim>\<open>onDependencyChange\<close>): the tracker of a memo, whose callback is
  \<^verbatim>\<open>recompute\<close>, or the tracker of an effect, whose callback is \<^verbatim>\<open>schedule\<close>.
\<close>

datatype dep = DSig nat | DMemo nat

datatype sub = TMemo nat | TEffect nat

text \<open>
  User code (the functions handed to \<^verbatim>\<open>createMemo\<close>, \<^verbatim>\<open>createEffect\<close>,
  \<^verbatim>\<open>batch\<close> and \<^verbatim>\<open>untrack\<close>) is the tree of the calls it makes into the
  library, each with the continuation that receives the call's result.
\<close>

datatype setarg = Plain val | Updater "val \<Rightarrow> val"

datatype prog =
    Done val
  | Fail val
  | GetSig nat "val \<Rightarrow> prog"
  | GetMemo nat "val \<Rightarrow> prog"
  | SetSig nat setarg "val \<Rightarrow> prog"
  | Untrack prog "val \<Rightarrow> prog"
  | Batch prog "val \<Rightarrow> prog"

text \<open>
  The trace is an observer added to the model (the tests of the repository observe
  runs the same way, by pushing onto an array from inside an effect); no function of the
  model reads it.
\<close>

datatype event = EvWrite nat val | EvNotify sub | EvInvoke sub | EvRun sub | EvMap nat

record signal =
  sig_value :: val
  sig_subscribers :: "sub jsset"

record tracker =
  subscriptions :: "dep jsset"
  collecting :: "dep jsset"

record memo =
  compute :: prog
  memo_subscribers :: "sub jsset"
  hasValue :: bool
  memo_value :: val
  computing :: bool
  memo_tracker :: tracker

record effect =
  effect_fn :: prog
  scheduled :: bool
  running :: bool
  disposed :: bool
  effect_tracker :: tracker

text \<open>The module-level state; the top of \<open>collectorStack\<close> is the head of the list.\<close>

record state =
  signals :: "nat \<Rightarrow> signal"
  memos :: "nat \<Rightarrow> memo"
  effects :: "nat \<Rightarrow> effect"
  collectorStack :: "sub list"
  batchDepth :: int
  pendingSubscribers :: "sub jsset"
  heap :: "nat \<Rightarrow> obj"
  nextRef :: nat
  trace :: "event list"

datatype 'a res = Ok 'a | Throw val

type_synonym outcome = "val res \<times> state"

text \<open>
  Calls that can re-enter the library. The functions below take the interpreter of
  nested calls as their first argument \<open>rec\<close>; \<open>exec\<close> ties the knot with a bound
  on the nesting, and a run that exceeds the bound is \<open>None\<close>.
\<close>

datatype call =
    CRun prog
  | CMemoGet nat
  | CSet nat setarg
  | CRecompute nat
  | CNotifyFrom dep nat
  | CInvoke sub
  | CExecute nat
  | CFlush

type_synonym rec = "call \<Rightarrow> state \<Rightarrow> outcome option"

definition bind :: "outcome option \<Rightarrow> (val \<Rightarrow> state \<Rightarrow> outcome option) \<Rightarrow> outcome option" where
  "bind m f = (case m of None \<Rightarrow> None
     | Some (Throw e, st) \<Rightarrow> Some (Throw e, st)
     | Some (Ok v, st) \<Rightarrow> f v st)"

text \<open>\<^verbatim>\<open>try { m } finally { h }\<close>: \<open>h\<close> runs on both paths, and its own exception wins.\<close>

definition try_finally :: "outcome option \<Rightarrow> (state \<Rightarrow> outcome option) \<Rightarrow> outcome option" where
  "try_finally m h = (case m of None \<Rightarrow> None
     | Some (r, st) \<Rightarrow> (case h st of None \<Rightarrow> None
         | Some (Throw e, st') \<Rightarrow> Some (Throw e, st')
         | Some (Ok _, st') \<Rightarrow> Some (r, st')))"

definition tracker_of :: "sub \<Rightarrow> state \<Rightarrow> tracker" where
  "tracker_of t st = (case t of TMemo m \<Rightarrow> memo_tracker (memos st m)
     | TEffect e \<Rightarrow> effect_tracker (effects st e))"

definition set_tracker :: "sub \<Rightarrow> tracker \<Rightarrow> state \<Rightarrow> state" where
  "set_tracker t tr st = (case t of
       TMemo m \<Rightarrow> st\<lparr>memos := (memos st)(m := (memos st m)\<lparr>memo_tracker := tr\<rparr>)\<rparr>
     | TEffect e \<Rightarrow> st\<lparr>effects := (effects st)(e := (effects st e)\<lparr>effect_tracker := tr\<rparr>)\<rparr>)"

definition subscribers_of :: "dep \<Rightarrow> state \<Rightarrow> sub jsset" where
  "subscribers_of d st = (case d of DSig s \<Rightarrow> sig_subscribers (signals st s)
     | DMemo m \<Rightarrow> memo_subscribers (memos st m))"

definition set_subscribers :: "dep \<Rightarrow> sub jsset \<Rightarrow> state \<Rightarrow> state" where
  "set_subscribers d xs st = (case d of
       DSig s \<Rightarrow> st\<lparr>signals := (signals st)(s := (signals st s)\<lparr>sig_subscribers := xs\<rparr>)\<rparr>
     | DMemo m \<Rightarrow> st\<lparr>memos := (memos st)(m := (memos st m)\<lparr>memo_subscribers := xs\<rparr>)\<rparr>)"

definition log :: "event \<Rightarrow> state \<Rightarrow> state" where
  "log ev st = st\<lparr>trace := trace st @ [ev]\<rparr>"

definition set_sig_value :: "nat \<Rightarrow> val \<Rightarrow> state \<Rightarrow> state" where
  "set_sig_value s v st = st\<lparr>signals := (signals st)(s := (signals st s)\<lparr>sig_value := v\<rparr>)\<rparr>"

definition set_memo_value :: "nat \<Rightarrow> val \<Rightarrow> state \<Rightarrow> state" where
  "set_memo_value m v st =
     st\<lparr>memos := (memos st)(m := (memos st m)\<lparr>memo_value := v, hasValue := True\<rparr>)\<rparr>"

definition set_computing :: "nat \<Rightarrow> bool \<Rightarrow> state \<Rightarrow> state" where
  "set_computing m b st = st\<lparr>memos := (memos st)(m := (memos st m)\<lparr>computing := b\<rparr>)\<rparr>"

definition set_running :: "nat \<Rightarrow> bool \<Rightarrow> state \<Rightarrow> state" where
  "set_running e b st = st\<lparr>effects := (effects st)(e := (effects st e)\<lparr>running := b\<rparr>)\<rparr>"

definition set_scheduled :: "nat \<Rightarrow> bool \<Rightarrow> state \<Rightarrow> state" where
  "set_scheduled e b st = st\<lparr>effects := (effects st)(e := (effects st e)\<lparr>scheduled := b\<rparr>)\<rparr>"

definition set_disposed :: "nat \<Rightarrow> bool \<Rightarrow> state \<Rightarrow> state" where
  "set_disposed e b st = st\<lparr>effects := (effects st)(e := (effects st e)\<lparr>disposed := b\<rparr>)\<rparr>"

definition set_pending :: "sub jsset \<Rightarrow> state \<Rightarrow> state" where
  "set_pending xs st = st\<lparr>pendingSubscribers := xs\<rparr>"

definition set_batchDepth :: "int \<Rightarrow> state \<Rightarrow> state" where
  "set_batchDepth n st = st\<lparr>batchDepth := n\<rparr>"

subsection \<open>The collector stack\<close>

definition currentCollector :: "state \<Rightarrow> sub option" where
  "currentCollector st = (case collectorStack st of [] \<Rightarrow> None | t # _ \<Rightarrow> Some t)"

definition pushCollector :: "sub \<Rightarrow> state \<Rightarrow> state" where
  "pushCollector t st = st\<lparr>collectorStack := t # collectorStack st\<rparr>"

definition popCollector :: "state \<Rightarrow> state" where
  "popCollector st = st\<lparr>collectorStack := tl (collectorStack st)\<rparr>"

definition addDependency :: "sub \<Rightarrow> dep \<Rightarrow> state \<Rightarrow> state" where
  "addDependency t d st =
     set_tracker t ((tracker_of t st)\<lparr>collecting := set_add d (collecting (tracker_of t st))\<rparr>) st"

definition trackDependency :: "dep \<Rightarrow> state \<Rightarrow> state" where
  "trackDependency d st = (case currentCollector st of None \<Rightarrow> st
     | Some t \<Rightarrow> addDependency t d st)"

text \<open>
  \<^verbatim>\<open>untrack\<close> pops the top collector, if there is one, runs \<open>fn\<close> and pushes the
  popped collector back on both paths.
\<close>

definition untrack :: "(state \<Rightarrow> outcome option) \<Rightarrow> state \<Rightarrow> outcome option" where
  "untrack fn st = (case collectorStack st of
       [] \<Rightarrow> fn st
     | previous # rest \<Rightarrow>
         try_finally (fn (popCollector st))
           (\<lambda>st'. Some (Ok VUndef, pushCollector previous st')))"

subsection \<open>Batching\<close>

primrec flush_queue :: "rec \<Rightarrow> sub list \<Rightarrow> state \<Rightarrow> outcome option" where
  "flush_queue rec [] st = Some (Ok VUndef, st)"
| "flush_queue rec (subscriber # queued) st =
     bind (rec (CInvoke subscriber) st) (\<lambda>_. flush_queue rec queued)"

definition flushSubscribers :: "rec \<Rightarrow> state \<Rightarrow> outcome option" where
  "flushSubscribers rec st =
     (if set_size (pendingSubscribers st) > 0
      then bind (flush_queue rec (set_values (pendingSubscribers st)) (set_pending [] st))
             (\<lambda>_. rec CFlush)
      else Some (Ok VUndef, st))"

definition batch :: "rec \<Rightarrow> (state \<Rightarrow> outcome option) \<Rightarrow> state \<Rightarrow> outcome option" where
  "batch rec fn st =
     try_finally (fn (set_batchDepth (batchDepth st + 1) st))
       (\<lambda>st'. let st'' = set_batchDepth (batchDepth st' - 1) st'
              in if batchDepth st'' = 0 then flushSubscribers rec st'' else Some (Ok VUndef, st''))"

definition notifySubscriber :: "rec \<Rightarrow> sub \<Rightarrow> state \<Rightarrow> outcome option" where
  "notifySubscriber rec subscriber st =
     (let st1 = log (EvNotify subscriber) st
      in if batchDepth st1 > 0
         then Some (Ok VUndef, set_pending (set_add subscriber (pendingSubscribers st1)) st1)
         else rec (CInvoke subscriber) st1)"

text \<open>
  \<^verbatim>\<open>for (const subscriber of this.subscribers) notifySubscriber(subscriber)\<close>, from
  position \<open>i\<close> of the live set on.
\<close>

definition notify_from :: "rec \<Rightarrow> dep \<Rightarrow> nat \<Rightarrow> state \<Rightarrow> outcome option" where
  "notify_from rec d i st =
     (let entries = subscribers_of d st
      in if i < length entries
         then (case entries ! i of
                 None \<Rightarrow> rec (CNotifyFrom d (Suc i)) st
               | Some subscriber \<Rightarrow>
                   bind (notifySubscriber rec subscriber st) (\<lambda>_. rec (CNotifyFrom d (Suc i))))
         else Some (Ok VUndef, st))"

subsection \<open>Running user code\<close>

definition signal_get :: "nat \<Rightarrow> state \<Rightarrow> val \<times> state" where
  "signal_get s st = (let st1 = trackDependency (DSig s) st in (sig_value (signals st1 s), st1))"

definition signal_peek :: "nat \<Rightarrow> state \<Rightarrow> val" where
  "signal_peek s st = sig_value (signals st s)"

primrec user_run :: "prog \<Rightarrow> rec \<Rightarrow> state \<Rightarrow> outcome option" where
  "user_run (Done v) rec st = Some (Ok v, st)"
| "user_run (Fail e) rec st = Some (Throw e, st)"
| "user_run (GetSig s k) rec st =
     (case signal_get s st of (v, st1) \<Rightarrow> user_run (k v) rec st1)"
| "user_run (GetMemo m k) rec st = bind (rec (CMemoGet m) st) (\<lambda>v. user_run (k v) rec)"
| "user_run (SetSig s a k) rec st = bind (rec (CSet s a) st) (\<lambda>v. user_run (k v) rec)"
| "user_run (Untrack p k) rec st = bind (untrack (user_run p rec) st) (\<lambda>v. user_run (k v) rec)"
| "user_run (Batch p k) rec st = bind (batch rec (user_run p rec) st) (\<lambda>v. user_run (k v) rec)"

subsection \<open>The dependency tracker\<close>

text \<open>
  \<^verbatim>\<open>SignalSource.subscribe\<close> adds the callback; \<^verbatim>\<open>MemoSource.subscribe\<close> adds it and
  forces a first computation when the memo has no value yet. The handle either returns
  is \<open>unsubscribe\<close> of the same pair.
\<close>

definition subscribe :: "rec \<Rightarrow> dep \<Rightarrow> sub \<Rightarrow> state \<Rightarrow> outcome option" where
  "subscribe rec d callback st =
     (let st1 = set_subscribers d (set_add callback (subscribers_of d st)) st
      in case d of
           DSig s \<Rightarrow> Some (Ok VUndef, st1)
         | DMemo m \<Rightarrow>
             if \<not> hasValue (memos st1 m) then rec (CRecompute m) st1 else Some (Ok VUndef, st1))"

definition unsubscribe :: "dep \<Rightarrow> sub \<Rightarrow> state \<Rightarrow> state" where
  "unsubscribe d callback st = set_subscribers d (set_delete callback (subscribers_of d st)) st"

text \<open>
  The first loop of \<^verbatim>\<open>reconcileSubscriptions\<close>, over the entries of the subscription
  map; the loop deletes nothing but the entry it stands on.
\<close>

primrec remove_stale :: "sub \<Rightarrow> dep jsset \<Rightarrow> dep jsset \<Rightarrow> state \<Rightarrow> state" where
  "remove_stale t nextDeps [] st = st"
| "remove_stale t nextDeps (entry # entries) st =
     remove_stale t nextDeps entries
       (case entry of
          None \<Rightarrow> st
        | Some d \<Rightarrow>
            if \<not> set_has d nextDeps
            then (let st1 = unsubscribe d t st
                  in set_tracker t ((tracker_of t st1)
                       \<lparr>subscriptions := set_delete d (subscriptions (tracker_of t st1))\<rparr>) st1)
            else st)"

text \<open>
  The second loop, over the entries of \<open>nextDeps\<close> as they are when the loop starts:
  the set is the tracker's working set, which only \<open>addDependency\<close> of this tracker
  extends, and the tracker has left the collector stack by then.
\<close>

primrec add_new :: "rec \<Rightarrow> sub \<Rightarrow> dep jsset \<Rightarrow> state \<Rightarrow> outcome option" where
  "add_new rec t [] st = Some (Ok VUndef, st)"
| "add_new rec t (entry # entries) st =
     (case entry of
        None \<Rightarrow> add_new rec t entries st
      | Some d \<Rightarrow>
          if \<not> set_has d (subscriptions (tracker_of t st))
          then bind (subscribe rec d t st)
                 (\<lambda>_ st1. add_new rec t entries
                    (set_tracker t ((tracker_of t st1)
                       \<lparr>subscriptions := set_add d (subscriptions (tracker_of t st1))\<rparr>) st1))
          else add_new rec t entries st)"

definition reconcileSubscriptions :: "rec \<Rightarrow> sub \<Rightarrow> dep jsset \<Rightarrow> state \<Rightarrow> outcome option" where
  "reconcileSubscriptions rec t nextDeps st =
     add_new rec t nextDeps (remove_stale t nextDeps (subscriptions (tracker_of t st)) st)"

definition collect :: "rec \<Rightarrow> sub \<Rightarrow> (state \<Rightarrow> outcome option) \<Rightarrow> state \<Rightarrow> outcome option" where
  "collect rec t fn st =
     (let st1 = set_tracker t ((tracker_of t st)\<lparr>collecting := []\<rparr>) (log (EvRun t) st);
          st2 = pushCollector t st1
      in try_finally (fn st2)
           (\<lambda>st3. let st4 = popCollector st3
                  in reconcileSubscriptions rec t (collecting (tracker_of t st4)) st4))"

definition tracker_dispose :: "sub \<Rightarrow> state \<Rightarrow> state" where
  "tracker_dispose t st =
     (let st1 = fold (\<lambda>d. unsubscribe d t) (set_values (subscriptions (tracker_of t st))) st
      in set_tracker t ((tracker_of t st1)\<lparr>subscriptions := []\<rparr>) st1)"

subsection \<open>Signals\<close>

definition signal_set :: "rec \<Rightarrow> nat \<Rightarrow> setarg \<Rightarrow> state \<Rightarrow> outcome option" where
  "signal_set rec s nextValue st =
     (let previous = sig_value (signals st s);
          resolvedValue = (case nextValue of Updater f \<Rightarrow> f previous | Plain v \<Rightarrow> v);
          st1 = log (EvWrite s resolvedValue) (set_sig_value s resolvedValue st)
      in if \<not> object_is previous resolvedValue
         then bind (notify_from rec (DSig s) 0 st1) (\<lambda>_ st2. Some (Ok resolvedValue, st2))
         else Some (Ok resolvedValue, st1))"

subsection \<open>Memos\<close>

definition recompute :: "rec \<Rightarrow> nat \<Rightarrow> state \<Rightarrow> outcome option" where
  "recompute rec m st =
     (if computing (memos st m) then Some (Ok VUndef, st)
      else try_finally
             (bind (collect rec (TMemo m) (user_run (compute (memos st m)) rec) (set_computing m True st))
                (\<lambda>nextValue st1.
                   let changed = (\<not> hasValue (memos st1 m)
                                   \<or> \<not> object_is (memo_value (memos st1 m)) nextValue);
                       st2 = set_memo_value m nextValue st1
                   in if changed then notify_from rec (DMemo m) 0 st2 else Some (Ok VUndef, st2)))
             (\<lambda>st3. Some (Ok VUndef, set_computing m False st3)))"

definition memo_get :: "rec \<Rightarrow> nat \<Rightarrow> state \<Rightarrow> outcome option" where
  "memo_get rec m st =
     (let st1 = trackDependency (DMemo m) st
      in if \<not> hasValue (memos st1 m)
         then bind (recompute rec m st1) (\<lambda>_ st2. Some (Ok (memo_value (memos st2 m)), st2))
         else Some (Ok (memo_value (memos st1 m)), st1))"

subsection \<open>Effects\<close>

text \<open>
  The bodies of the model return no cleanup function and register none, so the list of
  cleanups of an effect stays empty and \<^verbatim>\<open>runCleanups\<close> has nothing to run; both are
  left out, and so is \<^verbatim>\<open>activeEffect\<close>, which only \<^verbatim>\<open>onCleanup\<close> reads.
\<close>

definition execute :: "rec \<Rightarrow> nat \<Rightarrow> state \<Rightarrow> outcome option" where
  "execute rec e st =
     (if disposed (effects st e) then Some (Ok VUndef, st)
      else bind (try_finally
                   (collect rec (TEffect e) (user_run (effect_fn (effects st e)) rec)
                      (set_scheduled e False (set_running e True st)))
                   (\<lambda>st1. Some (Ok VUndef, set_running e False st1)))
             (\<lambda>_ st2. if scheduled (effects st2 e) then rec (CExecute e) st2
                      else Some (Ok VUndef, st2)))"

definition schedule :: "rec \<Rightarrow> nat \<Rightarrow> state \<Rightarrow> outcome option" where
  "schedule rec e st =
     (if disposed (effects st e) then Some (Ok VUndef, st)
      else if running (effects st e)
      then Some (Ok VUndef, set_scheduled e True st)
      else execute rec e st)"

definition start :: "rec \<Rightarrow> nat \<Rightarrow> state \<Rightarrow> outcome option" where
  "start rec e st = schedule rec e st"

definition effect_dispose :: "nat \<Rightarrow> state \<Rightarrow> state" where
  "effect_dispose e st =
     (if disposed (effects st e) then st
      else tracker_dispose (TEffect e) (set_disposed e True st))"

subsection \<open>The interpreter\<close>

text \<open>Calling a tracker's callback: \<^verbatim>\<open>recompute\<close> of its memo or \<^verbatim>\<open>schedule\<close> of its effect.\<close>

definition invoke :: "rec \<Rightarrow> sub \<Rightarrow> state \<Rightarrow> outcome option" where
  "invoke rec t st =
     (let st1 = log (EvInvoke t) st
      in case t of TMemo m \<Rightarrow> recompute rec m st1 | TEffect e \<Rightarrow> schedule rec e st1)"

definition step :: "rec \<Rightarrow> call \<Rightarrow> state \<Rightarrow> outcome option" where
  "step rec c st = (case c of
       CRun p \<Rightarrow> user_run p rec st
     | CMemoGet m \<Rightarrow> memo_get rec m st
     | CSet s a \<Rightarrow> signal_set rec s a st
     | CRecompute m \<Rightarrow> recompute rec m st
     | CNotifyFrom d i \<Rightarrow> notify_from rec d i st
     | CInvoke t \<Rightarrow> invoke rec t st
     | CExecute e \<Rightarrow> execute rec e st
     | CFlush \<Rightarrow> flushSubscribers rec st)"

primrec exec :: "nat \<Rightarrow> call \<Rightarrow> state \<Rightarrow> outcome option" where
  "exec 0 = (\<lambda>c st. None)"
| "exec (Suc n) = step (exec n)"

text \<open>Freshly constructed objects and the state of a module just loaded.\<close>

definition new_tracker :: tracker where
  "new_tracker = \<lparr>subscriptions = [], collecting = []\<rparr>"

definition new_signal :: "val \<Rightarrow> signal" where
  "new_signal v = \<lparr>sig_value = v, sig_subscribers = []\<rparr>"

definition new_memo :: "prog \<Rightarrow> memo" where
  "new_memo f = \<lparr>compute = f, memo_subscribers = [], hasValue = False, memo_value = VUndef,
     computing = False, memo_tracker = new_tracker\<rparr>"

definition new_effect :: "prog \<Rightarrow> effect" where
  "new_effect f = \<lparr>effect_fn = f, scheduled = False, running = False, disposed = False,
     effect_tracker = new_tracker\<rparr>"

definition init_state :: state where
  "init_state = \<lparr>signals = (\<lambda>_. new_signal VUndef), memos = (\<lambda>_. new_memo (Done VUndef)),
     effects = (\<lambda>_. new_effect (Done VUndef)), collectorStack = [], batchDepth = 0,
     pendingSubscribers = [], heap = (\<lambda>_. Obj []), nextRef = 0, trace = []\<rparr>"

section \<open>Structural stores\<close>

subsection \<open>Objects in the heap\<close>

definition alloc :: "obj \<Rightarrow> state \<Rightarrow> val \<times> state" where
  "alloc ob st = (VRef (nextRef st),
     st\<lparr>heap := (heap st)(nextRef st := ob), nextRef := Suc (nextRef st)\<rparr>)"

definition heap_put :: "nat \<Rightarrow> obj \<Rightarrow> state \<Rightarrow> state" where
  "heap_put a ob st = st\<lparr>heap := (heap st)(a := ob)\<rparr>"

primrec upd_prop :: "(key \<times> val) list \<Rightarrow> key \<Rightarrow> val \<Rightarrow> (key \<times> val) list" where
  "upd_prop [] k v = [(k, v)]"
| "upd_prop (p # ps) k v = (if fst p = k then (k, v) # ps else p # upd_prop ps k v)"

text \<open>\<^verbatim>\<open>ob[k]\<close>, \<^verbatim>\<open>ob[k] = v\<close> and \<^verbatim>\<open>delete ob[k]\<close> on a heap object.\<close>

definition get_prop :: "obj \<Rightarrow> key \<Rightarrow> val" where
  "get_prop ob k = (case ob of
       Obj ps \<Rightarrow> (case map_of ps k of Some v \<Rightarrow> v | None \<Rightarrow> VUndef)
     | Arr xs \<Rightarrow> (case k of
           Index i \<Rightarrow> if i < length xs then xs ! i else VUndef
         | Name n \<Rightarrow> if n = ''length'' then VNum (int (length xs)) else VUndef))"

definition set_prop :: "obj \<Rightarrow> key \<Rightarrow> val \<Rightarrow> obj" where
  "set_prop ob k v = (case ob of
       Obj ps \<Rightarrow> Obj (upd_prop ps k v)
     | Arr xs \<Rightarrow> (case k of
           Index i \<Rightarrow> Arr (if i < length xs then xs[i := v]
                            else xs @ replicate (i - length xs) VUndef @ [v])
         | Name n \<Rightarrow> Arr xs))"

definition delete_prop :: "obj \<Rightarrow> key \<Rightarrow> obj" where
  "delete_prop ob k = (case ob of
       Obj ps \<Rightarrow> Obj (filter (\<lambda>p. fst p \<noteq> k) ps)
     | Arr xs \<Rightarrow> (case k of
           Index i \<Rightarrow> Arr (if i < length xs then xs[i := VUndef] else xs)
         | Name n \<Rightarrow> Arr xs))"

text \<open>The own enumerable properties that an object spread copies.\<close>

definition props_of :: "obj \<Rightarrow> (key \<times> val) list" where
  "props_of ob = (case ob of Obj ps \<Rightarrow> ps | Arr xs \<Rightarrow> zip (map Index [0..<length xs]) xs)"

definition isObjectLike :: "val \<Rightarrow> bool" where
  "isObjectLike v = (case v of VRef a \<Rightarrow> True | _ \<Rightarrow> False)"

definition isArray :: "state \<Rightarrow> val \<Rightarrow> bool" where
  "isArray st v = (case v of
       VRef a \<Rightarrow> (case heap st a of Arr xs \<Rightarrow> True | Obj ps \<Rightarrow> False)
     | _ \<Rightarrow> False)"

definition shallowClone :: "val \<Rightarrow> state \<Rightarrow> val \<times> state" where
  "shallowClone v st = (case v of VRef a \<Rightarrow> alloc (heap st a) st | _ \<Rightarrow> (v, st))"

primrec getAtPath :: "(nat \<Rightarrow> obj) \<Rightarrow> val \<Rightarrow> key list \<Rightarrow> val" where
  "getAtPath h cursor [] = cursor"
| "getAtPath h cursor (segment # path) = (case cursor of
       VRef a \<Rightarrow> getAtPath h (get_prop (h a) segment) path
     | _ \<Rightarrow> VUndef)"

text \<open>
  \<^verbatim>\<open>setAtPath\<close> copies the containers along the path. The segments of a path come from
  the traps of a proxy, where a property key is a string, so a missing container is
  created as \<^verbatim>\<open>{}\<close>. Reading or assigning a property of a root that is no object is a
  \<^verbatim>\<open>TypeError\<close> (the module is strict code).
\<close>

definition type_error :: val where
  "type_error = VStr ''TypeError''"

primrec setAtPath :: "key list \<Rightarrow> val \<Rightarrow> val \<Rightarrow> state \<Rightarrow> val res \<times> state" where
  "setAtPath [] root v st = (Ok v, st)"
| "setAtPath (head # tail) root v st =
     (case shallowClone root st of (clone, st1) \<Rightarrow>
        (case clone of
           VRef c \<Rightarrow>
             (let currentValue = get_prop (heap st1 c) head
              in if tail = [] then (Ok clone, heap_put c (set_prop (heap st1 c) head v) st1)
                 else (case (if isObjectLike currentValue then (currentValue, st1)
                             else alloc (Obj []) st1) of
                         (base, st2) \<Rightarrow>
                           (case setAtPath tail base v st2 of
                              (Ok inner, st3) \<Rightarrow>
                                (Ok clone, heap_put c (set_prop (heap st3 c) head inner) st3)
                            | (Throw e, st3) \<Rightarrow> (Throw e, st3))))
         | _ \<Rightarrow> (Throw type_error, st1)))"

subsection \<open>The reactive proxy\<close>

text \<open>
  A proxy made by \<^verbatim>\<open>createAtPath\<close> is the signal of its store, the mode of the store and
  its path; the cache of proxies, by path, is not part of the model.
\<close>

record view =
  src :: nat
  mutable :: bool
  vpath :: "key list"

definition createAtPath :: "view \<Rightarrow> key list \<Rightarrow> view" where
  "createAtPath v path = v\<lparr>vpath := path\<rparr>"

definition createReactiveProxy :: "nat \<Rightarrow> bool \<Rightarrow> view" where
  "createReactiveProxy source m = createAtPath \<lparr>src = source, mutable = m, vpath = []\<rparr> []"

definition cannot_mutate :: val where
  "cannot_mutate = VStr ''Cannot mutate immutable store. Use setStore instead.''"

datatype method_call = Splice nat nat "val list" | Pop

text \<open>
  What the \<^verbatim>\<open>get\<close> trap returns: a primitive value, the proxy of a nested object, or,
  in a mutable store, the wrapper of a mutating array method.
\<close>

datatype got = Value val | View view | Wrapper string

definition MUTATING_ARRAY_METHODS :: "string list" where
  "MUTATING_ARRAY_METHODS = [''copyWithin'', ''fill'', ''pop'', ''push'', ''reverse'', ''shift'',
     ''sort'', ''splice'', ''unshift'']"

definition proxy_get :: "view \<Rightarrow> key \<Rightarrow> state \<Rightarrow> got \<times> state" where
  "proxy_get v prop st =
     (case signal_get (src v) st of (root, st1) \<Rightarrow>
        (case getAtPath (heap st1) root (vpath v) of
           VRef a \<Rightarrow>
             (case prop of
                Name n \<Rightarrow>
                  if mutable v \<and> isArray st1 (VRef a) \<and> n \<in> set MUTATING_ARRAY_METHODS
                  then (Wrapper n, st1)
                  else (let x = get_prop (heap st1 a) prop
                        in if isObjectLike x then (View (createAtPath v (vpath v @ [prop])), st1)
                           else (Value x, st1))
              | Index i \<Rightarrow>
                  (let x = get_prop (heap st1 a) prop
                   in if isObjectLike x then (View (createAtPath v (vpath v @ [prop])), st1)
                      else (Value x, st1)))
         | _ \<Rightarrow> (Value VUndef, st1)))"

definition proxy_set :: "rec \<Rightarrow> view \<Rightarrow> key \<Rightarrow> val \<Rightarrow> state \<Rightarrow> outcome option" where
  "proxy_set rec v prop x st =
     (if \<not> mutable v then Some (Throw cannot_mutate, st)
      else (let previousRoot = signal_peek (src v) st
            in case setAtPath (vpath v @ [prop]) previousRoot x st of
                 (Throw e, st1) \<Rightarrow> Some (Throw e, st1)
               | (Ok nextRoot, st1) \<Rightarrow>
                   bind (signal_set rec (src v) (Plain nextRoot) st1)
                     (\<lambda>_ st2. Some (Ok (VBool True), st2))))"

definition proxy_delete :: "rec \<Rightarrow> view \<Rightarrow> key \<Rightarrow> state \<Rightarrow> outcome option" where
  "proxy_delete rec v prop st =
     (if \<not> mutable v then Some (Throw cannot_mutate, st)
      else (let previousRoot = signal_peek (src v) st
            in case getAtPath (heap st) previousRoot (vpath v) of
                 VRef a \<Rightarrow>
                   (case shallowClone (VRef a) st of (clone, st1) \<Rightarrow>
                      (case clone of
                         VRef c \<Rightarrow>
                           (case setAtPath (vpath v) previousRoot clone
                                   (heap_put c (delete_prop (heap st1 c) prop) st1) of
                              (Throw e, st2) \<Rightarrow> Some (Throw e, st2)
                            | (Ok nextRoot, st2) \<Rightarrow>
                                bind (signal_set rec (src v) (Plain nextRoot) st2)
                                  (\<lambda>_ st3. Some (Ok (VBool True), st3)))
                       | _ \<Rightarrow> Some (Ok (VBool True), st1)))
               | _ \<Rightarrow> Some (Ok (VBool True), st)))"

subsection \<open>Mutating array methods\<close>

text \<open>
  \<^verbatim>\<open>splice\<close> and \<^verbatim>\<open>pop\<close> on the array at an address, in place; \<^verbatim>\<open>splice\<close> returns a new
  array of the removed elements. The other mutating methods are not modelled.
\<close>

definition apply_method :: "method_call \<Rightarrow> nat \<Rightarrow> state \<Rightarrow> val \<times> state" where
  "apply_method m a st = (case heap st a of
       Arr xs \<Rightarrow> (case m of
           Splice pos cnt items \<Rightarrow>
             alloc (Arr (take cnt (drop pos xs)))
               (heap_put a (Arr (take pos xs @ items @ drop (pos + cnt) xs)) st)
         | Pop \<Rightarrow> (if xs = [] then VUndef else last xs, heap_put a (Arr (butlast xs)) st))
     | Obj ps \<Rightarrow> (VUndef, st))"

definition method_name :: "method_call \<Rightarrow> string" where
  "method_name m = (case m of Splice pos cnt items \<Rightarrow> ''splice'' | Pop \<Rightarrow> ''pop'')"

text \<open>The function that the \<^verbatim>\<open>get\<close> trap of a mutable store returns for a mutating method.\<close>

definition array_wrapper :: "rec \<Rightarrow> view \<Rightarrow> method_call \<Rightarrow> state \<Rightarrow> outcome option" where
  "array_wrapper rec v m st =
     (let previousRoot = signal_peek (src v) st;
          currentArray = getAtPath (heap st) previousRoot (vpath v)
      in if \<not> isArray st currentArray then Some (Ok VUndef, st)
         else (case shallowClone currentArray st of (nextArray, st1) \<Rightarrow>
                 (case nextArray of
                    VRef b \<Rightarrow>
                      (case apply_method m b st1 of (result, st2) \<Rightarrow>
                         (case setAtPath (vpath v) previousRoot nextArray st2 of
                            (Throw e, st3) \<Rightarrow> Some (Throw e, st3)
                          | (Ok nextRoot, st3) \<Rightarrow>
                              bind (signal_set rec (src v) (Plain nextRoot) st3)
                                (\<lambda>_ st4. Some (Ok result, st4))))
                  | _ \<Rightarrow> Some (Ok VUndef, st1))))"

text \<open>
  \<^verbatim>\<open>proxy.splice(...)\<close> and \<^verbatim>\<open>proxy.pop()\<close>: the \<^verbatim>\<open>get\<close> trap, then the call of what it
  returned. In an immutable store the trap returns the array's own method bound to the
  node, which changes the node in place.
\<close>

definition call_method :: "rec \<Rightarrow> view \<Rightarrow> method_call \<Rightarrow> state \<Rightarrow> outcome option" where
  "call_method rec v m st =
     (case proxy_get v (Name (method_name m)) st of
        (Wrapper n, st1) \<Rightarrow> array_wrapper rec v m st1
      | (other, st1) \<Rightarrow>
          (case getAtPath (heap st1) (signal_peek (src v) st1) (vpath v) of
             VRef a \<Rightarrow>
               if isArray st1 (VRef a)
               then (case apply_method m a st1 of (result, st2) \<Rightarrow> Some (Ok result, st2))
               else Some (Throw type_error, st1)
           | _ \<Rightarrow> Some (Throw type_error, st1)))"

subsection \<open>Stores\<close>

text \<open>
  The argument of \<^verbatim>\<open>setStore\<close> is an object or an updater. What an updater returns is
  computed from the previous root and the heap: a value that exists already, or a new
  object.
\<close>

datatype made = Old val | New obj

datatype storearg = Next val | NextFn "(nat \<Rightarrow> obj) \<Rightarrow> val \<Rightarrow> made"

definition resolve_next :: "storearg \<Rightarrow> val \<Rightarrow> state \<Rightarrow> val \<times> state" where
  "resolve_next next previous st = (case next of
       Next x \<Rightarrow> (x, st)
     | NextFn f \<Rightarrow> (case f (heap st) previous of Old x \<Rightarrow> (x, st) | New ob \<Rightarrow> alloc ob st))"

definition deref :: "state \<Rightarrow> val \<Rightarrow> obj" where
  "deref st v = (case v of VRef a \<Rightarrow> heap st a | _ \<Rightarrow> Obj [])"

text \<open>\<^verbatim>\<open>{ ...previous, ...resolved }\<close>\<close>

definition spread2 :: "obj \<Rightarrow> obj \<Rightarrow> obj" where
  "spread2 previous resolved =
     Obj (fold (\<lambda>p ps. upd_prop ps (fst p) (snd p)) (props_of resolved) (props_of previous))"

definition setStore :: "rec \<Rightarrow> nat \<Rightarrow> storearg \<Rightarrow> state \<Rightarrow> outcome option" where
  "setStore rec source next st =
     (let previous = signal_peek source st
      in case resolve_next next previous st of
           (resolved, st1) \<Rightarrow>
             (case (if isObjectLike previous \<and> isObjectLike resolved
                    then alloc (spread2 (deref st1 previous) (deref st1 resolved)) st1
                    else (resolved, st1)) of
                (merged, st2) \<Rightarrow> signal_set rec source (Plain merged) st2))"

text \<open>
  \<^verbatim>\<open>createStore\<close> and \<^verbatim>\<open>createMutable\<close>; \<open>source\<close> names the signal that
  \<^verbatim>\<open>new SignalSource\<close> creates.
\<close>

definition createStore :: "nat \<Rightarrow> val \<Rightarrow> state \<Rightarrow> view \<times> state" where
  "createStore source initialValue st =
     (createReactiveProxy source False,
      st\<lparr>signals := (signals st)(source := \<lparr>sig_value = initialValue, sig_subscribers = []\<rparr>)\<rparr>)"

definition createMutable :: "nat \<Rightarrow> val \<Rightarrow> state \<Rightarrow> view \<times> state" where
  "createMutable source initialValue st =
     (createReactiveProxy source True,
      st\<lparr>signals := (signals st)(source := \<lparr>sig_value = initialValue, sig_subscribers = []\<rparr>)\<rparr>)"

subsection \<open>Keyed array projections\<close>

text \<open>
  The options of \<^verbatim>\<open>createArrayProjection\<close>. The key function reads the item; the map
  function may allocate; an update callback is the list of the assignments
  \<^verbatim>\<open>projected.k = x\<close> that it makes, computed from the source item.
\<close>

record options =
  okey :: "(nat \<Rightarrow> obj) \<Rightarrow> val \<Rightarrow> nat \<Rightarrow> val"
  omap :: "val \<Rightarrow> nat \<Rightarrow> state \<Rightarrow> val \<times> state"
  oupdate :: "((nat \<Rightarrow> obj) \<Rightarrow> val \<Rightarrow> nat \<Rightarrow> (key \<times> val) list) option"

definition call_map :: "options \<Rightarrow> val \<Rightarrow> nat \<Rightarrow> state \<Rightarrow> val \<times> state" where
  "call_map opts item index st = omap opts item index (log (EvMap index) st)"

primrec assign_all :: "rec \<Rightarrow> view \<Rightarrow> (key \<times> val) list \<Rightarrow> state \<Rightarrow> outcome option" where
  "assign_all rec w [] st = Some (Ok VUndef, st)"
| "assign_all rec w (a # as) st =
     bind (proxy_set rec w (fst a) (snd a) st) (\<lambda>_. assign_all rec w as)"

text \<open>\<^verbatim>\<open>options.update(target[index], list[index], index)\<close>, when there is an update.\<close>

definition call_update :: "rec \<Rightarrow> options \<Rightarrow> view \<Rightarrow> val \<Rightarrow> nat \<Rightarrow> state \<Rightarrow> outcome option" where
  "call_update rec opts target item index st = (case oupdate opts of
       None \<Rightarrow> Some (Ok VUndef, st)
     | Some f \<Rightarrow>
         (case proxy_get target (Index index) st of
            (View w, st1) \<Rightarrow> assign_all rec w (f (heap st1) item index) st1
          | (other, st1) \<Rightarrow>
              if f (heap st1) item index = [] then Some (Ok VUndef, st1)
              else Some (Throw type_error, st1)))"

text \<open>The forward scan for the key, from position \<open>lo\<close> on.\<close>

definition find_from :: "val list \<Rightarrow> val \<Rightarrow> nat \<Rightarrow> nat option" where
  "find_from keys nextKey lo =
     (case filter (\<lambda>cursor. object_is (keys ! cursor) nextKey) [lo..<length keys] of
        [] \<Rightarrow> None
      | cursor # rest \<Rightarrow> Some cursor)"

text \<open>The closure variable \<^verbatim>\<open>keys\<close> is an array in the heap, at address \<open>kref\<close>.\<close>

definition keys_of :: "nat \<Rightarrow> state \<Rightarrow> val list" where
  "keys_of kref st = (case heap st kref of Arr xs \<Rightarrow> xs | Obj ps \<Rightarrow> [])"

definition reconcile_at ::
  "rec \<Rightarrow> options \<Rightarrow> view \<Rightarrow> nat \<Rightarrow> val list \<Rightarrow> val list \<Rightarrow> nat \<Rightarrow> state \<Rightarrow> outcome option" where
  "reconcile_at rec opts target kref list nextKeys index st =
     (let keys = keys_of kref st; nextKey = nextKeys ! index
      in if index < length keys \<and> object_is (keys ! index) nextKey
         then call_update rec opts target (list ! index) index st
         else (case find_from keys nextKey (index + 1) of
                 Some foundIndex \<Rightarrow>
                   bind (call_method rec target (Splice foundIndex 1 []) st)
                     (\<lambda>removed st1.
                        let movedItem = get_prop (deref st1 removed) (Index 0)
                        in case apply_method (Splice foundIndex 1 []) kref st1 of
                             (removedKeys, st2) \<Rightarrow>
                               let movedKey = get_prop (deref st2 removedKeys) (Index 0)
                               in bind (call_method rec target (Splice index 0 [movedItem]) st2)
                                    (\<lambda>_ st3.
                                       case apply_method (Splice index 0 [movedKey]) kref st3 of
                                         (_, st4) \<Rightarrow>
                                           call_update rec opts target (list ! index) index st4))
               | None \<Rightarrow>
                   (case call_map opts (list ! index) index st of
                      (projected, st1) \<Rightarrow>
                        bind (call_method rec target (Splice index 0 [projected]) st1)
                          (\<lambda>_ st2.
                             case apply_method (Splice index 0 [nextKey]) kref st2 of
                               (_, st3) \<Rightarrow> Some (Ok VUndef, st3)))))"

primrec reconcile_loop ::
  "rec \<Rightarrow> options \<Rightarrow> view \<Rightarrow> nat \<Rightarrow> val list \<Rightarrow> val list \<Rightarrow> nat list \<Rightarrow> state \<Rightarrow> outcome option" where
  "reconcile_loop rec opts target kref list nextKeys [] st = Some (Ok VUndef, st)"
| "reconcile_loop rec opts target kref list nextKeys (index # rest) st =
     bind (reconcile_at rec opts target kref list nextKeys index st)
       (\<lambda>_. reconcile_loop rec opts target kref list nextKeys rest)"

text \<open>
  \<^verbatim>\<open>while (target.length > list.length) target.pop()\<close>. Each \<^verbatim>\<open>pop\<close> notifies the
  subscribers of the projection, so the number of rounds is bounded by \<open>fuel\<close>.
\<close>

primrec trim_target :: "nat \<Rightarrow> rec \<Rightarrow> view \<Rightarrow> nat \<Rightarrow> state \<Rightarrow> outcome option" where
  "trim_target 0 rec target n st = None"
| "trim_target (Suc fuel) rec target n st =
     (case proxy_get target (Name ''length'') st of
        (Value (VNum len), st1) \<Rightarrow>
          if len > int n
          then bind (call_method rec target Pop st1) (\<lambda>_. trim_target fuel rec target n)
          else Some (Ok VUndef, st1)
      | (other, st1) \<Rightarrow> Some (Ok VUndef, st1))"

text \<open>\<^verbatim>\<open>while (keys.length > list.length) keys.pop()\<close>\<close>

definition trim_keys :: "nat \<Rightarrow> nat \<Rightarrow> state \<Rightarrow> state" where
  "trim_keys kref n st =
     ((\<lambda>st1. snd (apply_method Pop kref st1)) ^^ (length (keys_of kref st) - n)) st"

text \<open>The mutator that \<^verbatim>\<open>createArrayProjection\<close> passes to \<^verbatim>\<open>createProjection\<close>.\<close>

definition projection_mutate ::
  "nat \<Rightarrow> rec \<Rightarrow> options \<Rightarrow> view \<Rightarrow> nat \<Rightarrow> val list \<Rightarrow> state \<Rightarrow> outcome option" where
  "projection_mutate fuel rec opts target kref list st =
     (let nextKeys = map (\<lambda>x. okey opts (heap st) (fst x) (snd x)) (zip list [0..<length list])
      in bind (reconcile_loop rec opts target kref list nextKeys [0..<length list] st)
           (\<lambda>_ st1. bind (trim_target fuel rec target (length list) st1)
              (\<lambda>_ st2. Some (Ok VUndef, trim_keys kref (length list) st2))))"

section \<open>Notions used in the statements\<close>

text \<open>
  The definitions of this section are not part of the program: they name the states,
  the user code and the results that the theorems speak about.
\<close>

definition map_subscribers :: "(dep \<Rightarrow> sub jsset \<Rightarrow> sub jsset) \<Rightarrow> state \<Rightarrow> state" where
  "map_subscribers F st = st\<lparr>
     signals := (\<lambda>s. (signals st s)\<lparr>sig_subscribers := F (DSig s) (sig_subscribers (signals st s))\<rparr>),
     memos := (\<lambda>m. (memos st m)\<lparr>memo_subscribers := F (DMemo m) (memo_subscribers (memos st m))\<rparr>)\<rparr>"

primrec prune :: "dep jsset \<Rightarrow> dep jsset \<Rightarrow> dep jsset \<Rightarrow> dep jsset" where
  "prune nd [] xs = xs"
| "prune nd (e # es) xs = prune nd es
     (case e of None \<Rightarrow> xs | Some d \<Rightarrow> if \<not> set_has d nd then set_delete d xs else xs)"

definition resub :: "sub \<Rightarrow> dep jsset \<Rightarrow> dep jsset \<Rightarrow> dep \<Rightarrow> sub jsset \<Rightarrow> sub jsset" where
  "resub t subs nd d xs =
     (if set_has d subs \<and> \<not> set_has d nd then set_delete t xs
      else if set_has d nd \<and> \<not> set_has d subs then set_add t xs else xs)"

definition reconciled :: "sub \<Rightarrow> dep jsset \<Rightarrow> state \<Rightarrow> state" where
  "reconciled t nd st =
     set_tracker t ((tracker_of t st)\<lparr>subscriptions := fold set_add (set_values nd)
          (prune nd (subscriptions (tracker_of t st)) (subscriptions (tracker_of t st)))\<rparr>)
       (map_subscribers (resub t (subscriptions (tracker_of t st)) nd) st)"

datatype reader = RDone val | RGet nat "val \<Rightarrow> reader"

primrec of_reader :: "reader \<Rightarrow> prog" where
  "of_reader (RDone v) = Done v"
| "of_reader (RGet s k) = GetSig s (\<lambda>v. of_reader (k v))"

primrec reads :: "reader \<Rightarrow> (nat \<Rightarrow> val) \<Rightarrow> nat list" where
  "reads (RDone v) \<sigma> = []"
| "reads (RGet s k) \<sigma> = s # reads (k (\<sigma> s)) \<sigma>"

primrec result :: "reader \<Rightarrow> (nat \<Rightarrow> val) \<Rightarrow> val" where
  "result (RDone v) \<sigma> = v"
| "result (RGet s k) \<sigma> = result (k (\<sigma> s)) \<sigma>"

definition values_of :: "state \<Rightarrow> nat \<Rightarrow> val" where
  "values_of st s = sig_value (signals st s)"

definition collected :: "reader \<Rightarrow> sub \<Rightarrow> state \<Rightarrow> state" where
  "collected r t st =
     reconciled t (fold set_add (map DSig (reads r (values_of st))) [])
       (set_tracker t ((tracker_of t st)\<lparr>collecting :=
            fold set_add (map DSig (reads r (values_of st))) []\<rparr>) (log (EvRun t) st))"

definition flat :: "(sub \<Rightarrow> reader) \<Rightarrow> state \<Rightarrow> bool" where
  "flat b st \<longleftrightarrow>
     (\<forall>e. effect_fn (effects st e) = of_reader (b (TEffect e))
          \<and> \<not> running (effects st e) \<and> \<not> disposed (effects st e)) \<and>
     (\<forall>m. compute (memos st m) = of_reader (b (TMemo m))
          \<and> \<not> computing (memos st m) \<and> subscribers_of (DMemo m) st = []) \<and>
     (\<forall>s c. set_has c (subscribers_of (DSig s) st)
          \<longleftrightarrow> set_has (DSig s) (subscriptions (tracker_of c st))) \<and>
     (\<forall>c d. set_has d (subscriptions (tracker_of c st))
          \<longleftrightarrow> set_has d (collecting (tracker_of c st))) \<and>
     (\<forall>s. distinct (set_values (subscribers_of (DSig s) st)))"

definition rerun :: "(sub \<Rightarrow> reader) \<Rightarrow> sub \<Rightarrow> state \<Rightarrow> state" where
  "rerun b c st = (case c of
       TEffect e \<Rightarrow>
         set_running e False (collected (b c) c
           (set_scheduled e False (set_running e True (log (EvInvoke c) st))))
     | TMemo m \<Rightarrow>
         set_computing m False (set_memo_value m (result (b c) (values_of st))
           (collected (b c) c (set_computing m True (log (EvInvoke c) st)))))"

definition read_set :: "reader \<Rightarrow> state \<Rightarrow> dep jsset" where
  "read_set r st = fold set_add (map DSig (reads r (values_of st))) []"

definition notify_rerun :: "(sub \<Rightarrow> reader) \<Rightarrow> sub \<Rightarrow> state \<Rightarrow> state" where
  "notify_rerun b c st = rerun b c (log (EvNotify c) st)"

text \<open>An effect is collecting and, inside it, a memo is recomputing.\<close>

definition nested_state :: state where
  "nested_state = init_state\<lparr>collectorStack := [TMemo 0, TEffect 0]\<rparr>"

definition runs :: "sub \<Rightarrow> state \<Rightarrow> nat" where
  "runs c st = count_list (trace st) (EvRun c)"

definition resolve :: "setarg \<Rightarrow> val \<Rightarrow> val" where
  "resolve a previous = (case a of Updater f \<Rightarrow> f previous | Plain v \<Rightarrow> v)"

definition installed :: "nat \<Rightarrow> setarg \<Rightarrow> state \<Rightarrow> state" where
  "installed s a st =
     log (EvWrite s (resolve a (values_of st s))) (set_sig_value s (resolve a (values_of st s)) st)"

datatype wscript = WEnd | WSet nat setarg wscript | WBatch wscript wscript

primrec of_wscript :: "wscript \<Rightarrow> prog" where
  "of_wscript WEnd = Done VUndef"
| "of_wscript (WSet s a k) = SetSig s a (\<lambda>_. of_wscript k)"
| "of_wscript (WBatch w k) = Batch (of_wscript w) (\<lambda>_. of_wscript k)"

primrec writes :: "wscript \<Rightarrow> (nat \<times> setarg) list" where
  "writes WEnd = []"
| "writes (WSet s a k) = (s, a) # writes k"
| "writes (WBatch w k) = writes w @ writes k"

definition enqueue :: "sub \<Rightarrow> state \<Rightarrow> state" where
  "enqueue c st = set_pending (set_add c (pendingSubscribers st)) (log (EvNotify c) st)"

definition batched_set :: "nat \<times> setarg \<Rightarrow> state \<Rightarrow> state" where
  "batched_set x st = (case x of (s, a) \<Rightarrow>
     if object_is (values_of st s) (resolve a (values_of st s)) then installed s a st
     else fold enqueue (set_values (subscribers_of (DSig s) st)) (installed s a st))"

definition changing :: "nat \<times> setarg \<Rightarrow> state \<Rightarrow> bool" where
  "changing x st = (case x of (s, a) \<Rightarrow> \<not> object_is (values_of st s) (resolve a (values_of st s)))"

primrec queued :: "(nat \<times> setarg) list \<Rightarrow> state \<Rightarrow> sub list" where
  "queued [] st = []"
| "queued (x # ws) st =
     (if changing x st then set_values (subscribers_of (DSig (fst x)) st) else [])
     @ queued ws (batched_set x st)"

primrec batch_events :: "(nat \<times> setarg) list \<Rightarrow> state \<Rightarrow> event list" where
  "batch_events [] st = []"
| "batch_events (x # ws) st =
     EvWrite (fst x) (resolve (snd x) (values_of st (fst x)))
     # (if changing x st then map EvNotify (set_values (subscribers_of (DSig (fst x)) st)) else [])
     @ batch_events ws (batched_set x st)"

definition flushed :: "(sub \<Rightarrow> reader) \<Rightarrow> state \<Rightarrow> state" where
  "flushed b st =
     (if set_size (pendingSubscribers st) > 0
      then fold (rerun b) (set_values (pendingSubscribers st)) (set_pending [] st)
      else st)"

definition sets :: "nat \<Rightarrow> val list \<Rightarrow> wscript" where
  "sets s vs = foldr (\<lambda>v k. WSet s (Plain v) k) vs WEnd"

definition invocations :: "sub \<Rightarrow> state \<Rightarrow> nat" where
  "invocations c st = count_list (trace st) (EvInvoke c)"

definition demo_bodies :: "sub \<Rightarrow> reader" where
  "demo_bodies = (\<lambda>_. RDone VUndef)(TEffect 0 := RGet 0 RDone, TEffect 2 := RGet 2 RDone)"

definition demo_init :: state where
  "demo_init = init_state\<lparr>
     signals := (\<lambda>_. new_signal VUndef)(0 := new_signal (VNum 1), 2 := new_signal (VNum 7)),
     effects := (\<lambda>_. new_effect (Done VUndef))
       (0 := new_effect (of_reader (RGet 0 RDone)), 2 := new_effect (of_reader (RGet 2 RDone)))\<rparr>"

definition demo_state :: state where
  "demo_state = rerun demo_bodies (TEffect 2) (rerun demo_bodies (TEffect 0) demo_init)"

definition nested_writes :: wscript where
  "nested_writes = WSet 0 (Plain (VNum 2)) (WBatch (WSet 0 (Plain (VNum 3)) WEnd) WEnd)"

definition synced :: "(sub \<Rightarrow> reader) \<Rightarrow> state \<Rightarrow> bool" where
  "synced b st \<longleftrightarrow>
     (\<forall>m. hasValue (memos st m) \<longrightarrow>
        memo_value (memos st m) = result (b (TMemo m)) (values_of st) \<and>
        collecting (tracker_of (TMemo m) st) = read_set (b (TMemo m)) st)"

definition recomputed :: "(sub \<Rightarrow> reader) \<Rightarrow> nat \<Rightarrow> state \<Rightarrow> state" where
  "recomputed b m st =
     set_computing m False (set_memo_value m (result (b (TMemo m)) (values_of st))
       (collected (b (TMemo m)) (TMemo m) (set_computing m True st)))"

definition memo_state :: state where
  "memo_state = init_state\<lparr>
     signals := (\<lambda>_. new_signal VUndef)(0 := new_signal (VNum 1)),
     memos := (\<lambda>_. new_memo (Done VUndef))(0 := new_memo (GetSig 0 Done))\<rparr>"

definition stale_read :: prog where
  "stale_read = GetMemo 0 (\<lambda>_. Batch (SetSig 0 (Plain (VNum 5)) (\<lambda>_. GetMemo 0 Done)) Done)"

definition fresh_read :: prog where
  "fresh_read = GetMemo 0 (\<lambda>_. SetSig 0 (Plain (VNum 5)) (\<lambda>_. GetMemo 0 Done))"

definition memo_bodies :: "sub \<Rightarrow> reader" where
  "memo_bodies = (\<lambda>_. RDone VUndef)(TMemo 0 := RGet 0 RDone)"

definition memo_ready :: state where
  "memo_ready = rerun memo_bodies (TMemo 0) memo_state"

definition set_then_read :: "nat \<Rightarrow> setarg \<Rightarrow> nat \<Rightarrow> prog" where
  "set_then_read s a m = SetSig s a (\<lambda>_. GetMemo m Done)"

definition value_after :: "nat \<Rightarrow> outcome \<Rightarrow> val" where
  "value_after s x = values_of (snd x) s"

definition poke :: "sub \<Rightarrow> state \<Rightarrow> state" where
  "poke c st = (case c of
       TEffect e \<Rightarrow> set_scheduled e True (log (EvInvoke c) (log (EvNotify c) st))
     | TMemo m \<Rightarrow> st)"

definition busy :: "sub \<Rightarrow> state \<Rightarrow> bool" where
  "busy c st = (case c of
       TEffect e \<Rightarrow> running (effects st e) \<and> \<not> disposed (effects st e)
     | TMemo m \<Rightarrow> False)"

definition self_write :: "nat \<Rightarrow> val \<Rightarrow> state \<Rightarrow> state" where
  "self_write s w st =
     (if object_is (values_of st s) w then installed s (Plain w) st
      else fold poke (set_values (subscribers_of (DSig s) st)) (installed s (Plain w) st))"

primrec self_events :: "sub \<Rightarrow> nat \<Rightarrow> val list \<Rightarrow> val \<Rightarrow> event list" where
  "self_events c s [] v = []"
| "self_events c s (w # ws) v =
     EvWrite s w # (if object_is v w then [] else [EvNotify c, EvInvoke c]) @ self_events c s ws w"

primrec hits :: "val list \<Rightarrow> val \<Rightarrow> bool" where
  "hits [] v = False"
| "hits (w # ws) v = (\<not> object_is v w \<or> hits ws w)"

definition loop_body :: "val \<Rightarrow> prog" where
  "loop_body v = (if v = VNum 0 then of_wscript (sets 0 [VNum 1, VNum 2]) else Done VUndef)"

definition loop_state :: state where
  "loop_state = init_state\<lparr>
     signals := (\<lambda>_. new_signal VUndef)
       (0 := \<lparr>sig_value = VNum 0, sig_subscribers = [Some (TEffect 0)]\<rparr>),
     effects := (\<lambda>_. new_effect (Done VUndef))
       (0 := \<lparr>effect_fn = GetSig 0 loop_body, scheduled = False, running = False, disposed = False,
              effect_tracker = \<lparr>subscriptions = [Some (DSig 0)], collecting = [Some (DSig 0)]\<rparr>\<rparr>)\<rparr>"

definition grows :: "state \<Rightarrow> state \<Rightarrow> bool" where
  "grows st st' \<longleftrightarrow> (\<exists>evs. trace st' = trace st @ evs)"

definition extends :: "outcome option \<Rightarrow> state \<Rightarrow> bool" where
  "extends m st \<longleftrightarrow> (\<forall>r st'. m = Some (r, st') \<longrightarrow> grows st st')"

definition extending :: "rec \<Rightarrow> bool" where
  "extending rec \<longleftrightarrow> (\<forall>c st. extends (rec c st) st)"

primrec is_notify :: "event \<Rightarrow> bool" where
  "is_notify (EvWrite s v) = False"
| "is_notify (EvNotify c) = True"
| "is_notify (EvInvoke c) = False"
| "is_notify (EvRun c) = False"
| "is_notify (EvMap i) = False"

definition notifications :: "state \<Rightarrow> nat" where
  "notifications st = length (filter is_notify (trace st))"

definition throwing_state :: state where
  "throwing_state = init_state\<lparr>
     signals := (\<lambda>_. new_signal VUndef)(0 := new_signal (VNum 1)),
     memos := (\<lambda>_. new_memo (Done VUndef))(0 := new_memo (Fail (VStr ''boom''))),
     effects := (\<lambda>_. new_effect (Done VUndef))(0 := new_effect (GetSig 0 (\<lambda>_. GetMemo 0 Done)))\<rparr>"

definition first_run :: "outcome option" where
  "first_run = collect (exec 4) (TEffect 0)
     (user_run (effect_fn (effects throwing_state 0)) (exec 4)) throwing_state"

definition working_set :: "sub \<Rightarrow> outcome option \<Rightarrow> dep list option" where
  "working_set t = map_option (\<lambda>x. set_values (collecting (tracker_of t (snd x))))"

definition subscribed :: "sub \<Rightarrow> outcome option \<Rightarrow> dep list option" where
  "subscribed t = map_option (\<lambda>x. set_values (subscriptions (tracker_of t (snd x))))"

definition holders :: "dep \<Rightarrow> outcome option \<Rightarrow> sub list option" where
  "holders d = map_option (\<lambda>x. set_values (subscribers_of d (snd x)))"

definition settings :: state where
  "settings = snd (createStore 0 (VRef 0) (init_state\<lparr>
     heap := (\<lambda>_. Obj [])(0 := Obj [(Name ''count'', VNum 0), (Name ''nested'', VRef 1)],
                            1 := Obj [(Name ''enabled'', VBool True)]),
     nextRef := 2\<rparr>))"

definition settings_view :: view where
  "settings_view = fst (createStore 0 (VRef 0) init_state)"

definition allocated :: "obj \<Rightarrow> state \<Rightarrow> state" where
  "allocated ob st = st\<lparr>heap := (heap st)(nextRef st := ob), nextRef := Suc (nextRef st)\<rparr>"

definition store_bodies :: "sub \<Rightarrow> reader" where
  "store_bodies = (\<lambda>_. RDone VUndef)(TEffect 0 := RGet 0 RDone)"

definition store_init :: state where
  "store_init = init_state\<lparr>
     signals := (\<lambda>_. new_signal VUndef)(0 := new_signal (VRef 0)),
     effects := (\<lambda>_. new_effect (Done VUndef))(0 := new_effect (of_reader (RGet 0 RDone))),
     heap := (\<lambda>_. Obj [])(0 := Obj [(Name ''count'', VNum 0), (Name ''nested'', VRef 1)],
                            1 := Obj [(Name ''enabled'', VBool True)],
                            2 := Obj [(Name ''count'', VNum 1)]),
     nextRef := 3\<rparr>"

definition store_state :: state where
  "store_state = rerun store_bodies (TEffect 0) store_init"

definition bump :: "(nat \<Rightarrow> obj) \<Rightarrow> val \<Rightarrow> made" where
  "bump h previous = New (Obj [(Name ''count'',
     (case get_prop (case previous of VRef a \<Rightarrow> h a | _ \<Rightarrow> Obj []) (Name ''count'') of
        VNum n \<Rightarrow> VNum (n + 1) | _ \<Rightarrow> VUndef))])"

section \<open>Basic facts\<close>

lemma exec_Suc [simp]:
  "exec (Suc n) (CRun p) st = user_run p (exec n) st"
  "exec (Suc n) (CMemoGet m) st = memo_get (exec n) m st"
  "exec (Suc n) (CSet s a) st = signal_set (exec n) s a st"
  "exec (Suc n) (CRecompute m) st = recompute (exec n) m st"
  "exec (Suc n) (CNotifyFrom d i) st = notify_from (exec n) d i st"
  "exec (Suc n) (CInvoke t) st = invoke (exec n) t st"
  "exec (Suc n) (CExecute e) st = execute (exec n) e st"
  "exec (Suc n) CFlush st = flushSubscribers (exec n) st"
  by (simp_all add: step_def)

declare exec.simps(2) [simp del]

lemma set_values_append [simp]: "set_values (xs @ ys) = set_values xs @ set_values ys"
  by (induction xs rule: set_values.induct) auto

lemma set_values_mem: "x \<in> set (set_values xs) \<longleftrightarrow> set_has x xs"
  by (induction xs rule: set_values.induct) (auto simp: set_has_def)

lemma set_has_Nil [simp]: "\<not> set_has x []"
  by (simp add: set_has_def)

lemma set_has_Cons [simp]: "set_has x (e # es) \<longleftrightarrow> e = Some x \<or> set_has x es"
  by (auto simp: set_has_def)

lemma set_has_add [simp]: "set_has y (set_add x xs) \<longleftrightarrow> y = x \<or> set_has y xs"
  by (auto simp: set_add_def set_has_def)

lemma set_has_delete [simp]: "set_has y (set_delete x xs) \<longleftrightarrow> y \<noteq> x \<and> set_has y xs"
  by (auto simp: set_delete_def set_has_def)

lemma length_set_delete [simp]: "length (set_delete x xs) = length xs"
  by (simp add: set_delete_def)

lemma set_values_delete: "set_values (set_delete x xs) = removeAll x (set_values xs)"
  by (induction xs rule: set_values.induct) (auto simp: set_delete_def)

lemma distinct_set_add: "distinct (set_values xs) \<Longrightarrow> distinct (set_values (set_add x xs))"
  by (auto simp: set_add_def set_values_mem)

lemma distinct_set_delete: "distinct (set_values xs) \<Longrightarrow> distinct (set_values (set_delete x xs))"
  by (simp add: set_values_delete distinct_removeAll)

lemma set_delete_absent: "\<not> set_has x xs \<Longrightarrow> set_delete x xs = xs"
  by (induction xs) (auto simp: set_delete_def set_has_def)

lemma tracker_of_set_tracker [simp]:
  "tracker_of t (set_tracker t' tr st) = (if t = t' then tr else tracker_of t st)"
  by (auto simp: tracker_of_def set_tracker_def split: sub.splits)

lemma tracker_of_set_subscribers [simp]:
  "tracker_of t (set_subscribers d xs st) = tracker_of t st"
  by (auto simp: tracker_of_def set_subscribers_def split: sub.splits dep.splits)

lemma subscribers_of_set_subscribers [simp]:
  "subscribers_of d (set_subscribers d' xs st) = (if d = d' then xs else subscribers_of d st)"
  by (auto simp: subscribers_of_def set_subscribers_def split: dep.splits)

lemma subscribers_of_set_tracker [simp]:
  "subscribers_of d (set_tracker t tr st) = subscribers_of d st"
  by (auto simp: subscribers_of_def set_tracker_def split: sub.splits dep.splits)

lemma tracker_of_log [simp]: "tracker_of t (log ev st) = tracker_of t st"
  by (simp add: tracker_of_def log_def split: sub.splits)

lemma subscribers_of_log [simp]: "subscribers_of d (log ev st) = subscribers_of d st"
  by (simp add: subscribers_of_def log_def split: dep.splits)

lemma map_subscribers_id [simp]: "map_subscribers (\<lambda>d xs. xs) st = st"
  by (simp add: map_subscribers_def)

lemma map_subscribers_comp [simp]:
  "map_subscribers F (map_subscribers G st) = map_subscribers (\<lambda>d xs. F d (G d xs)) st"
  by (simp add: map_subscribers_def)

lemma set_subscribers_as_map:
  "set_subscribers d (g (subscribers_of d st)) st = map_subscribers (\<lambda>d' xs. if d' = d then g xs else xs) st"
  by (cases d) (auto simp: set_subscribers_def subscribers_of_def map_subscribers_def fun_eq_iff intro!: state.equality)

lemma tracker_of_map_subscribers [simp]:
  "tracker_of t (map_subscribers F st) = tracker_of t st"
  by (cases t) (auto simp: tracker_of_def map_subscribers_def)

lemma subscribers_of_map_subscribers [simp]:
  "subscribers_of d (map_subscribers F st) = F d (subscribers_of d st)"
  by (cases d) (auto simp: subscribers_of_def map_subscribers_def)

lemma set_tracker_map_subscribers:
  "map_subscribers F (set_tracker t tr st) = set_tracker t tr (map_subscribers F st)"
  by (cases t) (auto simp: set_tracker_def map_subscribers_def fun_eq_iff intro!: state.equality)

lemma set_tracker_twice [simp]:
  "set_tracker t tr (set_tracker t tr' st) = set_tracker t tr st"
  by (cases t) (auto simp: set_tracker_def)

lemma set_tracker_same [simp]: "set_tracker t (tracker_of t st) st = st"
  by (cases t) (auto simp: set_tracker_def tracker_of_def)

lemma set_delete_twice [simp]: "set_delete x (set_delete x xs) = set_delete x xs"
  by (induction xs) (auto simp: set_delete_def)

lemma remove_stale_closed:
  "remove_stale t nd es st =
     set_tracker t ((tracker_of t st)\<lparr>subscriptions := prune nd es (subscriptions (tracker_of t st))\<rparr>)
       (map_subscribers (\<lambda>d xs. if set_has d es \<and> \<not> set_has d nd then set_delete t xs else xs) st)"
proof (induction es arbitrary: st)
  case Nil
  show ?case by simp
next
  case (Cons e es)
  show ?case
  proof (cases e)
    case None
    then show ?thesis using Cons by simp
  next
    case (Some d)
    show ?thesis
    proof (cases "set_has d nd")
      case True
      have "(\<lambda>d' xs. if set_has d' es \<and> \<not> set_has d' nd then set_delete t xs else xs)
          = (\<lambda>d' xs. if set_has d' (Some d # es) \<and> \<not> set_has d' nd then set_delete t xs else xs)"
        using True by (auto simp: fun_eq_iff)
      then show ?thesis using Cons Some True by simp
    next
      case False
      have "(\<lambda>d' xs. if set_has d' es \<and> \<not> set_has d' nd then set_delete t (if d' = d then set_delete t xs else xs)
                  else if d' = d then set_delete t xs else xs)
          = (\<lambda>d' xs. if set_has d' (Some d # es) \<and> \<not> set_has d' nd then set_delete t xs else xs)"
        using False by (auto simp: fun_eq_iff)
      then show ?thesis using Cons Some False
        by (simp add: unsubscribe_def set_subscribers_as_map[where g="set_delete t"] set_tracker_map_subscribers)
    qed
  qed
qed

lemma set_tracker_fields [simp]:
  "signals (set_tracker t tr st) = signals st"
  "collectorStack (set_tracker t tr st) = collectorStack st"
  "batchDepth (set_tracker t tr st) = batchDepth st"
  "pendingSubscribers (set_tracker t tr st) = pendingSubscribers st"
  "trace (set_tracker t tr st) = trace st"
  "compute (memos (set_tracker t tr st) m) = compute (memos st m)"
  "memo_subscribers (memos (set_tracker t tr st) m) = memo_subscribers (memos st m)"
  "hasValue (memos (set_tracker t tr st) m) = hasValue (memos st m)"
  "memo_value (memos (set_tracker t tr st) m) = memo_value (memos st m)"
  "computing (memos (set_tracker t tr st) m) = computing (memos st m)"
  "effect_fn (effects (set_tracker t tr st) e) = effect_fn (effects st e)"
  "scheduled (effects (set_tracker t tr st) e) = scheduled (effects st e)"
  "running (effects (set_tracker t tr st) e) = running (effects st e)"
  "disposed (effects (set_tracker t tr st) e) = disposed (effects st e)"
  by (auto simp: set_tracker_def split: sub.splits)

lemma map_subscribers_fields [simp]:
  "sig_value (signals (map_subscribers F st) s) = sig_value (signals st s)"
  "effects (map_subscribers F st) = effects st"
  "collectorStack (map_subscribers F st) = collectorStack st"
  "batchDepth (map_subscribers F st) = batchDepth st"
  "pendingSubscribers (map_subscribers F st) = pendingSubscribers st"
  "trace (map_subscribers F st) = trace st"
  "compute (memos (map_subscribers F st) m) = compute (memos st m)"
  "hasValue (memos (map_subscribers F st) m) = hasValue (memos st m)"
  "memo_value (memos (map_subscribers F st) m) = memo_value (memos st m)"
  "computing (memos (map_subscribers F st) m) = computing (memos st m)"
  by (auto simp: map_subscribers_def)

lemma set_add_present: "set_has x xs \<Longrightarrow> set_add x xs = xs"
  by (simp add: set_add_def)

lemma add_new_closed:
  assumes "\<forall>m. set_has (DMemo m) es \<longrightarrow> hasValue (memos st m)"
  shows "add_new rec t es st = Some (Ok VUndef,
     set_tracker t ((tracker_of t st)\<lparr>subscriptions :=
         fold set_add (set_values es) (subscriptions (tracker_of t st))\<rparr>)
       (map_subscribers (\<lambda>d xs. if set_has d es \<and> \<not> set_has d (subscriptions (tracker_of t st))
                                then set_add t xs else xs) st))"
  using assms
proof (induction es arbitrary: st)
  case Nil
  show ?case by simp
next
  case (Cons e es)
  show ?case
  proof (cases e)
    case None
    then show ?thesis using Cons by simp
  next
    case (Some d)
    let ?subs = "subscriptions (tracker_of t st)"
    show ?thesis
    proof (cases "set_has d ?subs")
      case True
      have "(\<lambda>d' xs. if set_has d' es \<and> \<not> set_has d' ?subs then set_add t xs else xs)
          = (\<lambda>d' xs. if set_has d' (Some d # es) \<and> \<not> set_has d' ?subs then set_add t xs else xs)"
        using True by (auto simp: fun_eq_iff)
      moreover have "\<forall>m. set_has (DMemo m) es \<longrightarrow> hasValue (memos st m)"
        using Cons.prems by auto
      ultimately show ?thesis using Cons.IH[of st] Some True by (simp add: set_add_present)
    next
      case False
      let ?st1 = "map_subscribers (\<lambda>d' xs. if d' = d then set_add t xs else xs) st"
      let ?st2 = "set_tracker t ((tracker_of t ?st1)\<lparr>subscriptions := set_add d ?subs\<rparr>) ?st1"
      have sub: "subscribe rec d t st = Some (Ok VUndef, ?st1)"
        using Cons.prems Some
        by (cases d) (auto simp: subscribe_def Let_def set_subscribers_as_map[where g="set_add t"])
      have hv: "\<forall>m. set_has (DMemo m) es \<longrightarrow> hasValue (memos ?st2 m)"
        using Cons.prems by auto
      have fn: "(\<lambda>d' xs. if set_has d' es \<and> \<not> set_has d' (set_add d ?subs)
                  then set_add t (if d' = d then set_add t xs else xs)
                  else if d' = d then set_add t xs else xs)
          = (\<lambda>d' xs. if set_has d' (Some d # es) \<and> \<not> set_has d' ?subs then set_add t xs else xs)"
        using False by (auto simp: fun_eq_iff)
      show ?thesis using Cons.IH[OF hv] Some False sub fn
        by (simp add: bind_def set_tracker_map_subscribers)
    qed
  qed
qed

lemma set_has_prune [simp]:
  "set_has d (prune nd es xs) \<longleftrightarrow> set_has d xs \<and> \<not> (set_has d es \<and> \<not> set_has d nd)"
  by (induction es arbitrary: xs) (auto split: option.splits)

lemma set_has_fold_add [simp]:
  "set_has d (fold set_add ds xs) \<longleftrightarrow> d \<in> set ds \<or> set_has d xs"
  by (induction ds arbitrary: xs) auto

lemma hasValue_remove_stale [simp]:
  "hasValue (memos (remove_stale t nd es st) m) = hasValue (memos st m)"
  by (simp add: remove_stale_closed)

lemma reconcile_closed:
  assumes "\<forall>m. set_has (DMemo m) nd \<longrightarrow> hasValue (memos st m)"
  shows "reconcileSubscriptions rec t nd st = Some (Ok VUndef, reconciled t nd st)"
proof -
  let ?subs = "subscriptions (tracker_of t st)"
  let ?st1 = "remove_stale t nd ?subs st"
  have hv: "\<forall>m. set_has (DMemo m) nd \<longrightarrow> hasValue (memos ?st1 m)"
    using assms by simp
  have fn: "(\<lambda>d xs. if set_has d nd \<and> (set_has d ?subs \<longrightarrow> \<not> set_has d nd)
                then set_add t (if set_has d ?subs \<and> \<not> set_has d nd then set_delete t xs else xs)
                else if set_has d ?subs \<and> \<not> set_has d nd then set_delete t xs else xs)
            = resub t ?subs nd"
    by (auto simp: fun_eq_iff resub_def)
  show ?thesis
    unfolding reconcileSubscriptions_def add_new_closed[OF hv]
    by (simp add: remove_stale_closed reconciled_def fn set_tracker_map_subscribers)
qed

lemma values_of_set_tracker [simp]: "values_of (set_tracker t tr st) = values_of st"
  by (simp add: values_of_def fun_eq_iff)

lemma collectorStack_cases:
  "collectorStack st = t # rest \<Longrightarrow> trackDependency d st =
     set_tracker t ((tracker_of t st)\<lparr>collecting := set_add d (collecting (tracker_of t st))\<rparr>) st"
  by (simp add: trackDependency_def currentCollector_def addDependency_def)

lemma run_reader_tracked:
  "collectorStack st = t # rest \<Longrightarrow>
   user_run (of_reader r) rec st = Some (Ok (result r (values_of st)),
     set_tracker t ((tracker_of t st)\<lparr>collecting :=
        fold set_add (map DSig (reads r (values_of st))) (collecting (tracker_of t st))\<rparr>) st)"
proof (induction r arbitrary: st)
  case (RDone v)
  show ?case by simp
next
  case (RGet s k)
  let ?st1 = "set_tracker t ((tracker_of t st)\<lparr>collecting := set_add (DSig s) (collecting (tracker_of t st))\<rparr>) st"
  have "collectorStack ?st1 = t # rest" using RGet.prems by simp
  from RGet.IH[OF rangeI this, of "values_of st s"] RGet.prems show ?case
    by (simp add: signal_get_def collectorStack_cases values_of_def[symmetric])
qed

lemma run_reader_untracked:
  "collectorStack st = [] \<Longrightarrow>
   user_run (of_reader r) rec st = Some (Ok (result r (values_of st)), st)"
  by (induction r arbitrary: st)
     (auto simp: signal_get_def trackDependency_def currentCollector_def values_of_def)

lemmas upd_defs = log_def set_sig_value_def set_memo_value_def set_computing_def set_running_def
  set_scheduled_def set_disposed_def set_pending_def set_batchDepth_def pushCollector_def
  popCollector_def

lemma tracker_of_upd [simp]:
  "tracker_of t (set_sig_value s v st) = tracker_of t st"
  "tracker_of t (set_memo_value m v st) = tracker_of t st"
  "tracker_of t (set_computing m b st) = tracker_of t st"
  "tracker_of t (set_running e b st) = tracker_of t st"
  "tracker_of t (set_scheduled e b st) = tracker_of t st"
  "tracker_of t (set_disposed e b st) = tracker_of t st"
  "tracker_of t (set_pending xs st) = tracker_of t st"
  "tracker_of t (set_batchDepth n st) = tracker_of t st"
  "tracker_of t (pushCollector t' st) = tracker_of t st"
  "tracker_of t (popCollector st) = tracker_of t st"
  by (auto simp: tracker_of_def upd_defs split: sub.splits)

lemma subscribers_of_upd [simp]:
  "subscribers_of d (set_sig_value s v st) = subscribers_of d st"
  "subscribers_of d (set_memo_value m v st) = subscribers_of d st"
  "subscribers_of d (set_computing m b st) = subscribers_of d st"
  "subscribers_of d (set_running e b st) = subscribers_of d st"
  "subscribers_of d (set_scheduled e b st) = subscribers_of d st"
  "subscribers_of d (set_disposed e b st) = subscribers_of d st"
  "subscribers_of d (set_pending xs st) = subscribers_of d st"
  "subscribers_of d (set_batchDepth n st) = subscribers_of d st"
  "subscribers_of d (pushCollector t' st) = subscribers_of d st"
  "subscribers_of d (popCollector st) = subscribers_of d st"
  by (auto simp: subscribers_of_def upd_defs split: dep.splits)

lemma values_of_upd [simp]:
  "values_of (map_subscribers F st) = values_of st"
  "values_of (log ev st) = values_of st"
  "values_of (set_sig_value s v st) = (values_of st)(s := v)"
  "values_of (set_memo_value m v st) = values_of st"
  "values_of (set_computing m b st) = values_of st"
  "values_of (set_running e b st) = values_of st"
  "values_of (set_scheduled e b st) = values_of st"
  "values_of (set_disposed e b st) = values_of st"
  "values_of (set_pending xs st) = values_of st"
  "values_of (set_batchDepth n st) = values_of st"
  "values_of (pushCollector t' st) = values_of st"
  "values_of (popCollector st) = values_of st"
  by (auto simp: values_of_def upd_defs fun_eq_iff)

lemma stack_upd [simp]:
  "collectorStack (log ev st) = collectorStack st"
  "collectorStack (set_sig_value s v st) = collectorStack st"
  "collectorStack (set_memo_value m v st) = collectorStack st"
  "collectorStack (set_computing m b st) = collectorStack st"
  "collectorStack (set_running e b st) = collectorStack st"
  "collectorStack (set_scheduled e b st) = collectorStack st"
  "collectorStack (set_disposed e b st) = collectorStack st"
  "collectorStack (set_pending xs st) = collectorStack st"
  "collectorStack (set_batchDepth n st) = collectorStack st"
  "collectorStack (pushCollector t' st) = t' # collectorStack st"
  "collectorStack (popCollector st) = tl (collectorStack st)"
  by (auto simp: upd_defs)

lemma depth_upd [simp]:
  "batchDepth (log ev st) = batchDepth st"
  "batchDepth (set_sig_value s v st) = batchDepth st"
  "batchDepth (set_memo_value m v st) = batchDepth st"
  "batchDepth (set_computing m b st) = batchDepth st"
  "batchDepth (set_running e b st) = batchDepth st"
  "batchDepth (set_scheduled e b st) = batchDepth st"
  "batchDepth (set_disposed e b st) = batchDepth st"
  "batchDepth (set_pending xs st) = batchDepth st"
  "batchDepth (set_batchDepth n st) = n"
  "batchDepth (pushCollector t' st) = batchDepth st"
  "batchDepth (popCollector st) = batchDepth st"
  by (auto simp: upd_defs)

lemma pending_upd [simp]:
  "pendingSubscribers (log ev st) = pendingSubscribers st"
  "pendingSubscribers (set_sig_value s v st) = pendingSubscribers st"
  "pendingSubscribers (set_memo_value m v st) = pendingSubscribers st"
  "pendingSubscribers (set_computing m b st) = pendingSubscribers st"
  "pendingSubscribers (set_running e b st) = pendingSubscribers st"
  "pendingSubscribers (set_scheduled e b st) = pendingSubscribers st"
  "pendingSubscribers (set_disposed e b st) = pendingSubscribers st"
  "pendingSubscribers (set_pending xs st) = xs"
  "pendingSubscribers (set_batchDepth n st) = pendingSubscribers st"
  "pendingSubscribers (pushCollector t' st) = pendingSubscribers st"
  "pendingSubscribers (popCollector st) = pendingSubscribers st"
  by (auto simp: upd_defs)

lemma trace_upd [simp]:
  "trace (log ev st) = trace st @ [ev]"
  "trace (set_sig_value s v st) = trace st"
  "trace (set_memo_value m v st) = trace st"
  "trace (set_computing m b st) = trace st"
  "trace (set_running e b st) = trace st"
  "trace (set_scheduled e b st) = trace st"
  "trace (set_disposed e b st) = trace st"
  "trace (set_pending xs st) = trace st"
  "trace (set_batchDepth n st) = trace st"
  "trace (pushCollector t' st) = trace st"
  "trace (popCollector st) = trace st"
  by (auto simp: upd_defs)

lemma memo_upd [simp]:
  "memos (log ev st) = memos st"
  "memos (set_sig_value s v st) = memos st"
  "memos (set_running e b st) = memos st"
  "memos (set_scheduled e b st) = memos st"
  "memos (set_disposed e b st) = memos st"
  "memos (set_pending xs st) = memos st"
  "memos (set_batchDepth n st) = memos st"
  "memos (pushCollector t' st) = memos st"
  "memos (popCollector st) = memos st"
  by (auto simp: upd_defs)

lemma memo_flags_upd [simp]:
  "compute (memos (set_memo_value m v st) m') = compute (memos st m')"
  "compute (memos (set_computing m b st) m') = compute (memos st m')"
  "hasValue (memos (set_memo_value m v st) m') = (m' = m \<or> hasValue (memos st m'))"
  "hasValue (memos (set_computing m b st) m') = hasValue (memos st m')"
  "memo_value (memos (set_memo_value m v st) m') = (if m' = m then v else memo_value (memos st m'))"
  "memo_value (memos (set_computing m b st) m') = memo_value (memos st m')"
  "computing (memos (set_memo_value m v st) m') = computing (memos st m')"
  "computing (memos (set_computing m b st) m') = (if m' = m then b else computing (memos st m'))"
  by (auto simp: upd_defs)

lemma effect_upd [simp]:
  "effects (log ev st) = effects st"
  "effects (set_sig_value s v st) = effects st"
  "effects (set_memo_value m v st) = effects st"
  "effects (set_computing m b st) = effects st"
  "effects (set_pending xs st) = effects st"
  "effects (set_batchDepth n st) = effects st"
  "effects (pushCollector t' st) = effects st"
  "effects (popCollector st) = effects st"
  by (auto simp: upd_defs)

lemma effect_flags_upd [simp]:
  "effect_fn (effects (set_running e b st) e') = effect_fn (effects st e')"
  "effect_fn (effects (set_scheduled e b st) e') = effect_fn (effects st e')"
  "effect_fn (effects (set_disposed e b st) e') = effect_fn (effects st e')"
  "running (effects (set_running e b st) e') = (if e' = e then b else running (effects st e'))"
  "running (effects (set_scheduled e b st) e') = running (effects st e')"
  "running (effects (set_disposed e b st) e') = running (effects st e')"
  "scheduled (effects (set_running e b st) e') = scheduled (effects st e')"
  "scheduled (effects (set_scheduled e b st) e') = (if e' = e then b else scheduled (effects st e'))"
  "scheduled (effects (set_disposed e b st) e') = scheduled (effects st e')"
  "disposed (effects (set_running e b st) e') = disposed (effects st e')"
  "disposed (effects (set_scheduled e b st) e') = disposed (effects st e')"
  "disposed (effects (set_disposed e b st) e') = (if e' = e then b else disposed (effects st e'))"
  by (auto simp: upd_defs)

lemma pop_push [simp]: "popCollector (pushCollector t st) = st"
  by (simp add: upd_defs)

lemma pop_set_tracker [simp]: "popCollector (set_tracker t tr st) = set_tracker t tr (popCollector st)"
  by (cases t) (auto simp: upd_defs set_tracker_def)

lemma collect_reader:
  "collect rec t (user_run (of_reader r) rec) st =
     Some (Ok (result r (values_of st)), collected r t st)"
proof -
  let ?st1 = "set_tracker t ((tracker_of t st)\<lparr>collecting := []\<rparr>) (log (EvRun t) st)"
  let ?nd = "fold set_add (map DSig (reads r (values_of st))) []"
  have run: "user_run (of_reader r) rec (pushCollector t ?st1) = Some (Ok (result r (values_of st)),
     set_tracker t ((tracker_of t st)\<lparr>collecting := ?nd\<rparr>) (pushCollector t ?st1))"
    using run_reader_tracked[of "pushCollector t ?st1" t "collectorStack st" r rec] by simp
  have nomemo: "\<forall>m. set_has (DMemo m) ?nd \<longrightarrow> hasValue (memos X m)" for X
    by auto
  show ?thesis
    unfolding collect_def Let_def run try_finally_def
    by (simp add: reconcile_closed[OF nomemo] collected_def)
qed

lemma resub_memo_empty [simp]:
  "resub t subs (fold set_add (map DSig ss) []) (DMemo m) [] = []"
  by (auto simp: resub_def set_delete_def)

lemma invoke_flat:
  assumes "flat b st"
  shows "invoke rec c st = Some (Ok VUndef, rerun b c st)"
proof (cases c)
  case (TEffect e)
  from assms have f: "effect_fn (effects st e) = of_reader (b (TEffect e))"
      "\<not> running (effects st e)" "\<not> disposed (effects st e)"
    by (auto simp: flat_def)
  show ?thesis using f TEffect
    by (simp add: invoke_def schedule_def execute_def collect_reader try_finally_def bind_def rerun_def
        collected_def reconciled_def)
next
  case (TMemo m)
  from assms have f: "compute (memos st m) = of_reader (b (TMemo m))"
      "\<not> computing (memos st m)" "subscribers_of (DMemo m) st = []"
    by (auto simp: flat_def)
  have nf: "subscribers_of (DMemo m) X = [] \<Longrightarrow> notify_from rec (DMemo m) 0 X = Some (Ok VUndef, X)" for X
    by (simp add: notify_from_def)
  show ?thesis using f TMemo
    by (simp add: invoke_def recompute_def collect_reader try_finally_def bind_def rerun_def Let_def nf
        collected_def reconciled_def)
qed

lemma rerun_trace [simp]: "trace (rerun b c st) = trace st @ [EvInvoke c, EvRun c]"
  by (cases c) (simp_all add: rerun_def collected_def reconciled_def)

lemma rerun_stack [simp]: "collectorStack (rerun b c st) = collectorStack st"
  by (cases c) (simp_all add: rerun_def collected_def reconciled_def)

lemma rerun_depth [simp]: "batchDepth (rerun b c st) = batchDepth st"
  by (cases c) (simp_all add: rerun_def collected_def reconciled_def)

lemma rerun_pending [simp]: "pendingSubscribers (rerun b c st) = pendingSubscribers st"
  by (cases c) (simp_all add: rerun_def collected_def reconciled_def)

lemma rerun_values [simp]: "values_of (rerun b c st) = values_of st"
  by (cases c) (simp_all add: rerun_def collected_def reconciled_def)

lemma rerun_subscribers:
  "subscribers_of d (rerun b c st) =
     resub c (subscriptions (tracker_of c st)) (read_set (b c) st) d (subscribers_of d st)"
  by (cases c) (simp_all add: rerun_def collected_def reconciled_def read_set_def)

lemma rerun_tracker:
  "tracker_of t (rerun b c st) =
     (if t = c
      then \<lparr>subscriptions = fold set_add (set_values (read_set (b c) st))
               (prune (read_set (b c) st) (subscriptions (tracker_of c st)) (subscriptions (tracker_of c st))),
            collecting = read_set (b c) st\<rparr>
      else tracker_of t st)"
  by (cases c) (simp_all add: rerun_def collected_def reconciled_def read_set_def)

lemma rerun_effect_fn [simp]: "effect_fn (effects (rerun b c st) e) = effect_fn (effects st e)"
  by (cases c) (simp_all add: rerun_def collected_def reconciled_def)

lemma rerun_disposed [simp]: "disposed (effects (rerun b c st) e) = disposed (effects st e)"
  by (cases c) (simp_all add: rerun_def collected_def reconciled_def)

lemma rerun_running [simp]:
  "running (effects (rerun b c st) e) = (c \<noteq> TEffect e \<and> running (effects st e))"
  by (cases c) (simp_all add: rerun_def collected_def reconciled_def)

lemma rerun_compute [simp]: "compute (memos (rerun b c st) m) = compute (memos st m)"
  by (cases c) (simp_all add: rerun_def collected_def reconciled_def)

lemma rerun_computing [simp]:
  "computing (memos (rerun b c st) m) = (c \<noteq> TMemo m \<and> computing (memos st m))"
  by (cases c) (simp_all add: rerun_def collected_def reconciled_def)

lemma rerun_hasValue [simp]:
  "hasValue (memos (rerun b c st) m) = (c = TMemo m \<or> hasValue (memos st m))"
  by (cases c) (auto simp: rerun_def collected_def reconciled_def)

lemma rerun_memo_value [simp]:
  "memo_value (memos (rerun b c st) m) =
     (if c = TMemo m then result (b c) (values_of st) else memo_value (memos st m))"
  by (cases c) (simp_all add: rerun_def collected_def reconciled_def)

lemma set_has_read_set [simp]: "set_has d (read_set r st) \<longleftrightarrow> d \<in> DSig ` set (reads r (values_of st))"
  by (auto simp: read_set_def)

lemma flat_effect: "flat b st \<Longrightarrow> effect_fn (effects st e) = of_reader (b (TEffect e))
          \<and> \<not> running (effects st e) \<and> \<not> disposed (effects st e)"
  by (simp add: flat_def)

lemma flat_memo: "flat b st \<Longrightarrow> compute (memos st m) = of_reader (b (TMemo m))
          \<and> \<not> computing (memos st m) \<and> subscribers_of (DMemo m) st = []"
  by (simp add: flat_def)

lemma flat_subscribed: "flat b st \<Longrightarrow> set_has c (subscribers_of (DSig s) st)
          \<longleftrightarrow> set_has (DSig s) (subscriptions (tracker_of c st))"
  by (simp add: flat_def)

lemma flat_collecting: "flat b st \<Longrightarrow> set_has d (subscriptions (tracker_of c st))
          \<longleftrightarrow> set_has d (collecting (tracker_of c st))"
  by (simp add: flat_def)

lemma flat_distinct: "flat b st \<Longrightarrow> distinct (set_values (subscribers_of (DSig s) st))"
  by (simp add: flat_def)

lemma rerun_flat_effects: "flat b st \<Longrightarrow> effect_fn (effects (rerun b c st) e) = of_reader (b (TEffect e))
          \<and> \<not> running (effects (rerun b c st) e) \<and> \<not> disposed (effects (rerun b c st) e)"
  by (simp add: flat_effect)

lemma rerun_flat_memos: "flat b st \<Longrightarrow> compute (memos (rerun b c st) m) = of_reader (b (TMemo m))
          \<and> \<not> computing (memos (rerun b c st) m) \<and> subscribers_of (DMemo m) (rerun b c st) = []"
  by (auto simp: flat_memo rerun_subscribers resub_def set_delete_def)

lemma rerun_flat_subscribed: "flat b st \<Longrightarrow> set_has c' (subscribers_of (DSig s) (rerun b c st))
          \<longleftrightarrow> set_has (DSig s) (subscriptions (tracker_of c' (rerun b c st)))"
  using flat_subscribed[of b st c' s] flat_subscribed[of b st c s]
  by (auto simp: rerun_subscribers rerun_tracker resub_def set_values_mem)

lemma rerun_flat_collecting: "flat b st \<Longrightarrow> set_has d (subscriptions (tracker_of c' (rerun b c st)))
          \<longleftrightarrow> set_has d (collecting (tracker_of c' (rerun b c st)))"
  using flat_collecting[of b st d c']
  by (auto simp: rerun_tracker set_values_mem)

lemma rerun_flat_distinct: "flat b st \<Longrightarrow> distinct (set_values (subscribers_of (DSig s) (rerun b c st)))"
  using flat_distinct[of b st s]
  by (auto simp: rerun_subscribers resub_def distinct_set_add distinct_set_delete)

lemma rerun_flat: "flat b st \<Longrightarrow> flat b (rerun b c st)"
  unfolding flat_def[of b "rerun b c st"] by (intro conjI allI rerun_flat_effects rerun_flat_memos rerun_flat_subscribed rerun_flat_collecting rerun_flat_distinct)

lemma flat_log [simp]: "flat b (log ev st) = flat b st"
  by (simp add: flat_def)

lemma flat_set_sig_value [simp]: "flat b (set_sig_value s v st) = flat b st"
  by (simp add: flat_def)

lemma notify_rerun_flat: "flat b st \<Longrightarrow> flat b (notify_rerun b c st)"
  by (simp add: notify_rerun_def rerun_flat)

lemma notifySubscriber_flat:
  assumes "flat b st" "batchDepth st \<le> 0"
  shows "notifySubscriber (exec (Suc n)) c st = Some (Ok VUndef, notify_rerun b c st)"
  using assms by (simp add: notifySubscriber_def Let_def invoke_flat notify_rerun_def)

lemma later_entries_fresh:
  assumes "distinct (set_values xs)" "i < length xs" "xs ! i = Some c"
  shows "Some c \<notin> set (drop (Suc i) xs)"
proof -
  have "xs = take i xs @ Some c # drop (Suc i) xs"
    using assms(2,3) by (metis id_take_nth_drop)
  then have "set_values xs = set_values (take i xs) @ c # set_values (drop (Suc i) xs)"
    by (metis set_values.simps(3) set_values_append)
  with assms(1) have "c \<notin> set (set_values (drop (Suc i) xs))" by simp
  then show ?thesis by (simp add: set_values_mem set_has_def)
qed

lemma drop_set_delete:
  "Some c \<notin> set (drop k xs) \<Longrightarrow> drop k (set_delete c xs) = drop k xs"
  unfolding set_delete_def drop_map by (rule map_idI) auto

lemma notify_rerun_entries:
  assumes "flat b st" "i < length (subscribers_of (DSig s) st)"
    "subscribers_of (DSig s) st ! i = Some c"
  shows "length (subscribers_of (DSig s) (notify_rerun b c st)) = length (subscribers_of (DSig s) st)"
    and "drop (Suc i) (subscribers_of (DSig s) (notify_rerun b c st)) = drop (Suc i) (subscribers_of (DSig s) st)"
proof -
  let ?xs = "subscribers_of (DSig s) st"
  have has: "set_has c ?xs" using assms(2,3) by (auto simp: set_has_def in_set_conv_nth)
  then have sub: "set_has (DSig s) (subscriptions (tracker_of c st))"
    using flat_subscribed[OF assms(1)] by simp
  have fresh: "Some c \<notin> set (drop (Suc i) ?xs)"
    using later_entries_fresh[OF flat_distinct[OF assms(1)] assms(2,3)] .
  show "length (subscribers_of (DSig s) (notify_rerun b c st)) = length ?xs"
    using sub by (simp add: notify_rerun_def rerun_subscribers resub_def)
  show "drop (Suc i) (subscribers_of (DSig s) (notify_rerun b c st)) = drop (Suc i) ?xs"
    using sub fresh by (simp add: notify_rerun_def rerun_subscribers resub_def drop_set_delete)
qed

lemma notify_rerun_depth [simp]: "batchDepth (notify_rerun b c st) = batchDepth st"
  by (simp add: notify_rerun_def)

lemma notify_loop_flat:
  assumes "flat b st" "batchDepth st \<le> 0"
    and "length (subscribers_of (DSig s) st) - i < n"
  shows "notify_from (exec n) (DSig s) i st =
     Some (Ok VUndef, fold (notify_rerun b) (set_values (drop i (subscribers_of (DSig s) st))) st)"
  using assms
proof (induction "length (subscribers_of (DSig s) st) - i" arbitrary: i st n)
  case 0
  then show ?case by (simp add: notify_from_def)
next
  case (Suc k)
  let ?xs = "subscribers_of (DSig s) st"
  from Suc.hyps(2) have i: "i < length ?xs" by simp
  from Suc.prems(3) obtain n' where n: "n = Suc n'" by (cases n) auto
  have dr: "drop i ?xs = ?xs ! i # drop (Suc i) ?xs" using i by (simp add: Cons_nth_drop_Suc)
  show ?case
  proof (cases "?xs ! i")
    case None
    have "notify_from (exec n') (DSig s) (Suc i) st =
        Some (Ok VUndef, fold (notify_rerun b) (set_values (drop (Suc i) ?xs)) st)"
      using Suc.hyps(2) Suc.prems n by (intro Suc.hyps(1)) auto
    then show ?thesis using i None n dr by (simp add: notify_from_def)
  next
    case (Some c)
    let ?st1 = "notify_rerun b c st"
    note ent = notify_rerun_entries[OF Suc.prems(1) i Some]
    have "notify_from (exec n') (DSig s) (Suc i) ?st1 =
        Some (Ok VUndef, fold (notify_rerun b) (set_values (drop (Suc i) (subscribers_of (DSig s) ?st1))) ?st1)"
      using Suc.hyps(2) Suc.prems n ent(1) notify_rerun_flat[OF Suc.prems(1)]
      by (intro Suc.hyps(1)) auto
    then show ?thesis using i Some n dr ent(2) notifySubscriber_flat[OF Suc.prems(1,2)]
      by (simp add: notify_from_def bind_def)
  qed
qed

lemma push_pop: "collectorStack st = t # rest \<Longrightarrow> pushCollector t (popCollector st) = st"
  by (simp add: upd_defs)

lemma fold_notify_rerun_flat: "flat b st \<Longrightarrow> flat b (fold (notify_rerun b) cs st)"
  by (induction cs arbitrary: st) (auto simp: notify_rerun_flat)

lemma fold_rerun_flat: "flat b st \<Longrightarrow> flat b (fold (rerun b) cs st)"
  by (induction cs arbitrary: st) (auto simp: rerun_flat)

lemma notify_rerun_simple [simp]:
  "trace (notify_rerun b c st) = trace st @ [EvNotify c, EvInvoke c, EvRun c]"
  "collectorStack (notify_rerun b c st) = collectorStack st"
  "pendingSubscribers (notify_rerun b c st) = pendingSubscribers st"
  "values_of (notify_rerun b c st) = values_of st"
  by (simp_all add: notify_rerun_def)

lemma fold_notify_rerun_simple [simp]:
  "trace (fold (notify_rerun b) cs st) =
     trace st @ concat (map (\<lambda>c. [EvNotify c, EvInvoke c, EvRun c]) cs)"
  "collectorStack (fold (notify_rerun b) cs st) = collectorStack st"
  "batchDepth (fold (notify_rerun b) cs st) = batchDepth st"
  "pendingSubscribers (fold (notify_rerun b) cs st) = pendingSubscribers st"
  "values_of (fold (notify_rerun b) cs st) = values_of st"
  by (induction cs arbitrary: st) simp_all

lemma fold_rerun_simple [simp]:
  "trace (fold (rerun b) cs st) = trace st @ concat (map (\<lambda>c. [EvInvoke c, EvRun c]) cs)"
  "collectorStack (fold (rerun b) cs st) = collectorStack st"
  "batchDepth (fold (rerun b) cs st) = batchDepth st"
  "pendingSubscribers (fold (rerun b) cs st) = pendingSubscribers st"
  "values_of (fold (rerun b) cs st) = values_of st"
  by (induction cs arbitrary: st) simp_all

lemma signal_set_flat:
  assumes "flat b st" "batchDepth st \<le> 0"
    and "\<not> object_is (values_of st s) (resolve a (values_of st s))"
    and "length (subscribers_of (DSig s) st) < n"
  shows "signal_set (exec n) s a st = Some (Ok (resolve a (values_of st s)),
     fold (notify_rerun b) (set_values (subscribers_of (DSig s) st)) (installed s a st))"
proof -
  have "notify_from (exec n) (DSig s) 0 (installed s a st) = Some (Ok VUndef,
      fold (notify_rerun b) (set_values (drop 0 (subscribers_of (DSig s) (installed s a st)))) (installed s a st))"
    using assms by (intro notify_loop_flat) (simp_all add: installed_def)
  then show ?thesis using assms(3)
    by (simp add: signal_set_def Let_def installed_def resolve_def values_of_def bind_def)
qed

lemma signal_set_same:
  assumes "object_is (values_of st s) (resolve a (values_of st s))"
  shows "signal_set rec s a st = Some (Ok (resolve a (values_of st s)), installed s a st)"
  using assms by (simp add: signal_set_def Let_def installed_def resolve_def values_of_def)

lemma count_list_concat_runs:
  "count_list (concat (map (\<lambda>c. [EvNotify c, EvInvoke c, EvRun c]) cs)) (EvRun c) = count_list cs c"
  by (induction cs) auto

lemma count_list_concat_runs2:
  "count_list (concat (map (\<lambda>c. [EvInvoke c, EvRun c]) cs)) (EvRun c) = count_list cs c"
  by (induction cs) auto

lemma count_list_distinct: "distinct cs \<Longrightarrow> count_list cs c = (if c \<in> set cs then 1 else 0)"
  by (induction cs) auto

lemma runs_fold_notify_rerun:
  "distinct cs \<Longrightarrow> runs c (fold (notify_rerun b) cs st) = runs c st + (if c \<in> set cs then 1 else 0)"
  by (simp add: runs_def count_list_concat_runs count_list_distinct)

lemma runs_fold_rerun:
  "distinct cs \<Longrightarrow> runs c (fold (rerun b) cs st) = runs c st + (if c \<in> set cs then 1 else 0)"
  by (simp add: runs_def count_list_concat_runs2 count_list_distinct)

lemma runs_installed [simp]: "runs c (installed s a st) = runs c st"
  by (simp add: runs_def installed_def)

lemma notify_rerun_tracker:
  "tracker_of t (notify_rerun b c st) =
     (if t = c
      then \<lparr>subscriptions = fold set_add (set_values (read_set (b c) st))
               (prune (read_set (b c) st) (subscriptions (tracker_of c st)) (subscriptions (tracker_of c st))),
            collecting = read_set (b c) st\<rparr>
      else tracker_of t st)"
  by (simp add: notify_rerun_def rerun_tracker read_set_def)

lemma read_set_cong: "values_of st' = values_of st \<Longrightarrow> read_set r st' = read_set r st"
  by (simp add: read_set_def)

lemma read_set_rerun [simp]:
  "read_set r (rerun b c st) = read_set r st"
  "read_set r (notify_rerun b c st) = read_set r st"
  by (rule read_set_cong, simp)+

lemma fold_notify_rerun_collecting:
  "collecting (tracker_of t (fold (notify_rerun b) cs st)) =
     (if t \<in> set cs then read_set (b t) st else collecting (tracker_of t st))"
proof (induction cs arbitrary: st)
  case Nil
  show ?case by simp
next
  case (Cons c cs)
  show ?case by (simp add: Cons notify_rerun_tracker)
qed

lemma fold_rerun_collecting:
  "collecting (tracker_of t (fold (rerun b) cs st)) =
     (if t \<in> set cs then read_set (b t) st else collecting (tracker_of t st))"
proof (induction cs arbitrary: st)
  case Nil
  show ?case by simp
next
  case (Cons c cs)
  show ?case by (simp add: Cons rerun_tracker)
qed

lemma enqueue_simple [simp]:
  "subscribers_of d (enqueue c st) = subscribers_of d st"
  "tracker_of t (enqueue c st) = tracker_of t st"
  "batchDepth (enqueue c st) = batchDepth st"
  "values_of (enqueue c st) = values_of st"
  "collectorStack (enqueue c st) = collectorStack st"
  "trace (enqueue c st) = trace st @ [EvNotify c]"
  "pendingSubscribers (enqueue c st) = set_add c (pendingSubscribers st)"
  "memos (enqueue c st) = memos st"
  "effects (enqueue c st) = effects st"
  by (simp_all add: enqueue_def)

lemma fold_enqueue_simple [simp]:
  "subscribers_of d (fold enqueue cs st) = subscribers_of d st"
  "tracker_of t (fold enqueue cs st) = tracker_of t st"
  "batchDepth (fold enqueue cs st) = batchDepth st"
  "values_of (fold enqueue cs st) = values_of st"
  "collectorStack (fold enqueue cs st) = collectorStack st"
  "trace (fold enqueue cs st) = trace st @ map EvNotify cs"
  "pendingSubscribers (fold enqueue cs st) = fold set_add cs (pendingSubscribers st)"
  "memos (fold enqueue cs st) = memos st"
  "effects (fold enqueue cs st) = effects st"
  by (induction cs arbitrary: st) simp_all

lemma notifySubscriber_batched:
  "batchDepth st > 0 \<Longrightarrow> notifySubscriber rec c st = Some (Ok VUndef, enqueue c st)"
  by (simp add: notifySubscriber_def enqueue_def Let_def)

lemma notify_loop_batched:
  assumes "batchDepth st > 0" "length (subscribers_of d st) - i < n"
  shows "notify_from (exec n) d i st =
     Some (Ok VUndef, fold enqueue (set_values (drop i (subscribers_of d st))) st)"
  using assms
proof (induction "length (subscribers_of d st) - i" arbitrary: i st n)
  case 0
  then show ?case by (simp add: notify_from_def)
next
  case (Suc k)
  let ?xs = "subscribers_of d st"
  from Suc.hyps(2) have i: "i < length ?xs" by simp
  from Suc.prems(2) obtain n' where n: "n = Suc n'" by (cases n) auto
  have dr: "drop i ?xs = ?xs ! i # drop (Suc i) ?xs" using i by (simp add: Cons_nth_drop_Suc)
  show ?case
  proof (cases "?xs ! i")
    case None
    have "notify_from (exec n') d (Suc i) st =
        Some (Ok VUndef, fold enqueue (set_values (drop (Suc i) ?xs)) st)"
      using Suc.hyps(2) Suc.prems n by (intro Suc.hyps(1)) auto
    then show ?thesis using i None n dr by (simp add: notify_from_def)
  next
    case (Some c)
    have "notify_from (exec n') d (Suc i) (enqueue c st) =
        Some (Ok VUndef, fold enqueue (set_values (drop (Suc i) (subscribers_of d (enqueue c st)))) (enqueue c st))"
      using Suc.hyps(2) Suc.prems n by (intro Suc.hyps(1)) auto
    then show ?thesis using i Some n dr notifySubscriber_batched[OF Suc.prems(1)]
      by (simp add: notify_from_def bind_def)
  qed
qed

lemma installed_simple [simp]:
  "subscribers_of d (installed s a st) = subscribers_of d st"
  "tracker_of t (installed s a st) = tracker_of t st"
  "batchDepth (installed s a st) = batchDepth st"
  "values_of (installed s a st) = (values_of st)(s := resolve a (values_of st s))"
  "collectorStack (installed s a st) = collectorStack st"
  "trace (installed s a st) = trace st @ [EvWrite s (resolve a (values_of st s))]"
  "pendingSubscribers (installed s a st) = pendingSubscribers st"
  "memos (installed s a st) = memos st"
  "effects (installed s a st) = effects st"
  by (simp_all add: installed_def)

lemma signal_set_batched:
  assumes "batchDepth st > 0" "length (subscribers_of (DSig s) st) < n"
  shows "signal_set (exec n) s a st = Some (Ok (resolve a (values_of st s)), batched_set (s, a) st)"
proof (cases "object_is (values_of st s) (resolve a (values_of st s))")
  case True
  then show ?thesis by (simp add: signal_set_same batched_set_def)
next
  case False
  have "notify_from (exec n) (DSig s) 0 (installed s a st) = Some (Ok VUndef,
      fold enqueue (set_values (drop 0 (subscribers_of (DSig s) (installed s a st)))) (installed s a st))"
    using assms by (intro notify_loop_batched) simp_all
  then show ?thesis using False
    by (simp add: signal_set_def Let_def installed_def resolve_def values_of_def bind_def batched_set_def)
qed

lemma batched_set_simple [simp]:
  "subscribers_of d (batched_set x st) = subscribers_of d st"
  "tracker_of t (batched_set x st) = tracker_of t st"
  "batchDepth (batched_set x st) = batchDepth st"
  "collectorStack (batched_set x st) = collectorStack st"
  "memos (batched_set x st) = memos st"
  "effects (batched_set x st) = effects st"
  by (simp_all add: batched_set_def split: prod.splits)

lemma fold_batched_set_simple [simp]:
  "subscribers_of d (fold batched_set ws st) = subscribers_of d st"
  "tracker_of t (fold batched_set ws st) = tracker_of t st"
  "batchDepth (fold batched_set ws st) = batchDepth st"
  "collectorStack (fold batched_set ws st) = collectorStack st"
  "memos (fold batched_set ws st) = memos st"
  "effects (fold batched_set ws st) = effects st"
  by (induction ws arbitrary: st) simp_all

lemma set_batchDepth_twice [simp]: "set_batchDepth k (set_batchDepth j st) = set_batchDepth k st"
  by (simp add: set_batchDepth_def)

lemma set_batchDepth_same: "batchDepth st = k \<Longrightarrow> set_batchDepth k st = st"
  by (auto simp: set_batchDepth_def)

lemma enqueue_set_batchDepth: "enqueue c (set_batchDepth k st) = set_batchDepth k (enqueue c st)"
  by (simp add: enqueue_def upd_defs)

lemma fold_enqueue_set_batchDepth:
  "fold enqueue cs (set_batchDepth k st) = set_batchDepth k (fold enqueue cs st)"
  by (induction cs arbitrary: st) (simp_all add: enqueue_set_batchDepth)

lemma installed_set_batchDepth:
  "installed s a (set_batchDepth k st) = set_batchDepth k (installed s a st)"
  by (simp add: installed_def upd_defs values_of_def)

lemma batched_set_set_batchDepth:
  "batched_set x (set_batchDepth k st) = set_batchDepth k (batched_set x st)"
  by (simp add: batched_set_def installed_set_batchDepth fold_enqueue_set_batchDepth split: prod.splits)

lemma fold_batched_set_set_batchDepth:
  "fold batched_set ws (set_batchDepth k st) = set_batchDepth k (fold batched_set ws st)"
  by (induction ws arbitrary: st) (simp_all add: batched_set_set_batchDepth)

lemma run_wscript_batched:
  assumes "batchDepth st > 0" "\<forall>x \<in> set (writes w). length (subscribers_of (DSig (fst x)) st) < n"
  shows "user_run (of_wscript w) (exec (Suc n)) st = Some (Ok VUndef, fold batched_set (writes w) st)"
  using assms
proof (induction w arbitrary: st)
  case WEnd
  show ?case by simp
next
  case (WSet s a k)
  have "signal_set (exec n) s a st = Some (Ok (resolve a (values_of st s)), batched_set (s, a) st)"
    using WSet.prems by (intro signal_set_batched) auto
  moreover have "user_run (of_wscript k) (exec (Suc n)) (batched_set (s, a) st)
      = Some (Ok VUndef, fold batched_set (writes k) (batched_set (s, a) st))"
    using WSet.prems by (intro WSet.IH) auto
  ultimately show ?case by (simp add: bind_def)
next
  case (WBatch w k)
  let ?d = "batchDepth st"
  let ?st1 = "set_batchDepth (?d + 1) st"
  have inner: "user_run (of_wscript w) (exec (Suc n)) ?st1 = Some (Ok VUndef, fold batched_set (writes w) ?st1)"
    using WBatch.prems by (intro WBatch.IH(1)) auto
  have restored: "set_batchDepth ?d (fold batched_set (writes w) ?st1) = fold batched_set (writes w) st"
    by (simp add: fold_batched_set_set_batchDepth set_batchDepth_same)
  have b: "batch (exec (Suc n)) (user_run (of_wscript w) (exec (Suc n))) st
      = Some (Ok VUndef, fold batched_set (writes w) st)"
    using WBatch.prems(1) by (simp add: batch_def inner try_finally_def Let_def restored)
  have "user_run (of_wscript k) (exec (Suc n)) (fold batched_set (writes w) st)
      = Some (Ok VUndef, fold batched_set (writes k) (fold batched_set (writes w) st))"
    using WBatch.prems by (intro WBatch.IH(2)) auto
  then show ?case by (simp add: b bind_def)
qed

lemma flush_queue_flat:
  "flat b st \<Longrightarrow> flush_queue (exec (Suc n)) cs st = Some (Ok VUndef, fold (rerun b) cs st)"
  by (induction cs arbitrary: st) (simp_all add: invoke_flat bind_def rerun_flat)

lemma flat_set_pending [simp]: "flat b (set_pending xs st) = flat b st"
  by (simp add: flat_def)

lemma flat_fold_batched_set [simp]: "flat b (fold batched_set ws st) = flat b st"
  by (simp add: flat_def)

lemma flushSubscribers_flat:
  assumes "flat b st"
  shows "flushSubscribers (exec (Suc (Suc n))) st = Some (Ok VUndef, flushed b st)"
proof (cases "set_size (pendingSubscribers st) > 0")
  case False
  then show ?thesis by (simp add: flushSubscribers_def flushed_def)
next
  case True
  let ?st1 = "fold (rerun b) (set_values (pendingSubscribers st)) (set_pending [] st)"
  have "flush_queue (exec (Suc (Suc n))) (set_values (pendingSubscribers st)) (set_pending [] st)
      = Some (Ok VUndef, ?st1)"
    using assms by (intro flush_queue_flat) simp
  moreover have "flushSubscribers rec ?st1 = Some (Ok VUndef, ?st1)" for rec
    by (simp add: flushSubscribers_def set_size_def)
  ultimately show ?thesis using True by (simp add: flushSubscribers_def flushed_def bind_def)
qed

lemma batch_flat:
  assumes "flat b st" "batchDepth st = 0"
    and "\<forall>x \<in> set (writes w). length (subscribers_of (DSig (fst x)) st) \<le> n"
  shows "user_run (Batch (of_wscript w) Done) (exec (Suc (Suc n))) st =
     Some (Ok VUndef, flushed b (fold batched_set (writes w) st))"
proof -
  let ?st1 = "set_batchDepth 1 st"
  have inner: "user_run (of_wscript w) (exec (Suc (Suc n))) ?st1
      = Some (Ok VUndef, fold batched_set (writes w) ?st1)"
    using assms(3) by (intro run_wscript_batched) (auto simp: less_Suc_eq_le)
  have restored: "set_batchDepth 0 (fold batched_set (writes w) ?st1) = fold batched_set (writes w) st"
    using assms(2) by (simp add: fold_batched_set_set_batchDepth set_batchDepth_same)
  have "flushSubscribers (exec (Suc (Suc n))) (fold batched_set (writes w) st)
      = Some (Ok VUndef, flushed b (fold batched_set (writes w) st))"
    using assms(1) by (intro flushSubscribers_flat) simp
  then show ?thesis using assms(2)
    by (simp add: batch_def inner try_finally_def Let_def restored bind_def)
qed

lemma trace_fold_batched_set:
  "trace (fold batched_set ws st) = trace st @ batch_events ws st"
  by (induction ws arbitrary: st)
     (auto simp: batched_set_def changing_def split: prod.splits)

lemma pending_fold_batched_set:
  "pendingSubscribers (fold batched_set ws st) = fold set_add (queued ws st) (pendingSubscribers st)"
  by (induction ws arbitrary: st)
     (auto simp: batched_set_def changing_def split: prod.splits)

lemma batch_events_quiet:
  "e \<in> set (batch_events ws st) \<Longrightarrow> (\<exists>s v. e = EvWrite s v) \<or> (\<exists>c. e = EvNotify c)"
  by (induction ws arbitrary: st) (auto split: if_splits)

lemma set_values_fold_add:
  "set (set_values (fold set_add cs xs)) = set cs \<union> set (set_values xs)"
  using set_has_fold_add[of _ cs xs] by (auto simp: set_values_mem)

lemma distinct_fold_add:
  "distinct (set_values xs) \<Longrightarrow> distinct (set_values (fold set_add cs xs))"
  by (induction cs arbitrary: xs) (auto simp: distinct_set_add)

lemma writes_sets [simp]: "writes (sets s vs) = map (\<lambda>v. (s, Plain v)) vs"
  by (induction vs) (simp_all add: sets_def)

lemma queued_same_signal:
  "c \<in> set (queued (map (\<lambda>v. (s, Plain v)) vs) st) \<Longrightarrow> c \<in> set (set_values (subscribers_of (DSig s) st))"
proof (induction vs arbitrary: st)
  case Nil
  then show ?case by simp
next
  case (Cons v vs)
  from Cons.prems Cons.IH[of "batched_set (s, Plain v) st"] show ?case
    by (auto split: if_splits)
qed

lemma queued_first_changing:
  assumes "vs \<noteq> []" "\<not> object_is (values_of st s) (hd vs)"
  shows "set (queued (map (\<lambda>v. (s, Plain v)) vs) st) = set (set_values (subscribers_of (DSig s) st))"
proof -
  from assms obtain v vs' where vs: "vs = v # vs'" by (cases vs) auto
  with assms(2) have "changing (s, Plain v) st" by (simp add: changing_def resolve_def)
  then show ?thesis using queued_same_signal[of _ s vs' "batched_set (s, Plain v) st"] vs by auto
qed

lemma runs_batch_events: "count_list (batch_events ws st) (EvRun c) = 0"
  by (induction ws arbitrary: st) (auto simp: count_list_0_iff)

lemma invocations_batch_events: "count_list (batch_events ws st) (EvInvoke c) = 0"
  by (induction ws arbitrary: st) (auto simp: count_list_0_iff)

lemma flushed_facts:
  assumes "flat b st"
  shows "flat b (flushed b st)"
    and "trace (flushed b st) = trace st @ concat (map (\<lambda>c. [EvInvoke c, EvRun c]) (set_values (pendingSubscribers st)))"
    and "set_values (pendingSubscribers (flushed b st)) = []"
    and "batchDepth (flushed b st) = batchDepth st"
    and "collecting (tracker_of t (flushed b st)) =
          (if t \<in> set (set_values (pendingSubscribers st)) then read_set (b t) st else collecting (tracker_of t st))"
    and "values_of (flushed b st) = values_of st"
proof -
  show "flat b (flushed b st)" using assms by (simp add: flushed_def fold_rerun_flat)
  show "trace (flushed b st) = trace st @ concat (map (\<lambda>c. [EvInvoke c, EvRun c]) (set_values (pendingSubscribers st)))"
    by (cases "set_size (pendingSubscribers st) > 0") (simp_all add: flushed_def set_size_def)
  show "set_values (pendingSubscribers (flushed b st)) = []"
    by (simp add: flushed_def set_size_def)
  show "batchDepth (flushed b st) = batchDepth st" by (simp add: flushed_def)
  have rs: "read_set r (set_pending [] st) = read_set r st" for r
    by (rule read_set_cong) simp
  show "collecting (tracker_of t (flushed b st)) =
          (if t \<in> set (set_values (pendingSubscribers st)) then read_set (b t) st else collecting (tracker_of t st))"
    by (cases "set_size (pendingSubscribers st) > 0")
       (simp_all add: flushed_def set_size_def fold_rerun_collecting rs)
  show "values_of (flushed b st) = values_of st" by (simp add: flushed_def)
qed

lemma demo_init_flat: "flat demo_bodies demo_init"
  by (simp add: flat_def demo_bodies_def demo_init_def init_state_def new_effect_def new_memo_def
      new_signal_def new_tracker_def subscribers_of_def tracker_of_def split: sub.splits)

lemma demo_state_flat: "flat demo_bodies demo_state"
  unfolding demo_state_def by (intro rerun_flat demo_init_flat)

lemma demo_init_simps:
  "values_of demo_init = (\<lambda>_. VUndef)(0 := VNum 1, 2 := VNum 7)"
  "subscribers_of d demo_init = []"
  "tracker_of t demo_init = new_tracker"
  "batchDepth demo_init = 0"
  "pendingSubscribers demo_init = []"
  "trace demo_init = []"
  by (auto simp: demo_init_def init_state_def new_effect_def new_memo_def values_of_def
      new_signal_def new_tracker_def subscribers_of_def tracker_of_def fun_eq_iff split: sub.splits dep.splits)

lemma demo_state_simps:
  "values_of demo_state = (\<lambda>_. VUndef)(0 := VNum 1, 2 := VNum 7)"
  "subscribers_of (DSig 0) demo_state = [Some (TEffect 0)]"
  "collecting (tracker_of (TEffect 0) demo_state) = [Some (DSig 0)]"
  "collecting (tracker_of (TEffect 2) demo_state) = [Some (DSig 2)]"
  "batchDepth demo_state = 0"
  "pendingSubscribers demo_state = []"
  by (simp_all add: demo_state_def demo_init_simps rerun_subscribers rerun_tracker read_set_def
      demo_bodies_def resub_def new_tracker_def set_add_def)

lemma flat_installed [simp]: "flat b (installed s a st) = flat b st"
  by (simp add: installed_def)

lemma flat_reads_subscribed:
  "flat b st \<Longrightarrow> c \<in> set (set_values (subscribers_of (DSig s) st))
     \<longleftrightarrow> set_has (DSig s) (collecting (tracker_of c st))"
  by (simp add: set_values_mem flat_subscribed flat_collecting)

lemma set_precise:
  assumes "flat b st" "batchDepth st = 0" "length (subscribers_of (DSig s) st) \<le> n"
    and "\<not> object_is (values_of st s) (resolve a (values_of st s))"
  shows "\<exists>st'. exec (Suc (Suc n)) (CSet s a) st = Some (Ok (resolve a (values_of st s)), st') \<and> flat b st' \<and>
     (\<forall>c. runs c st' = runs c st + (if set_has (DSig s) (collecting (tracker_of c st)) then 1 else 0)) \<and>
     (\<forall>c. set_has (DSig s) (collecting (tracker_of c st)) \<longrightarrow>
          collecting (tracker_of c st') = read_set (b c) st')"
proof -
  let ?cs = "set_values (subscribers_of (DSig s) st)"
  let ?st' = "fold (notify_rerun b) ?cs (installed s a st)"
  have ex: "exec (Suc (Suc n)) (CSet s a) st = Some (Ok (resolve a (values_of st s)), ?st')"
    using assms by (simp add: signal_set_flat[where b=b])
  have fl: "flat b ?st'" using assms(1) by (simp add: fold_notify_rerun_flat)
  have rs: "read_set r ?st' = read_set r (installed s a st)" for r
    by (rule read_set_cong) simp
  have "runs c ?st' = runs c st + (if set_has (DSig s) (collecting (tracker_of c st)) then 1 else 0)" for c
    using flat_distinct[OF assms(1), of s] flat_reads_subscribed[OF assms(1), of c s]
    by (simp add: runs_fold_notify_rerun)
  moreover have "set_has (DSig s) (collecting (tracker_of c st)) \<longrightarrow>
      collecting (tracker_of c ?st') = read_set (b c) ?st'" for c
    using flat_reads_subscribed[OF assms(1), of c s]
    by (simp add: fold_notify_rerun_collecting rs)
  ultimately show ?thesis using ex fl by blast
qed

lemma batch_precise:
  assumes "flat b st" "batchDepth st = 0" "pendingSubscribers st = []"
    and "\<forall>x \<in> set (writes w). length (subscribers_of (DSig (fst x)) st) \<le> n"
  shows "\<exists>st' P. exec (Suc (Suc (Suc n))) (CRun (Batch (of_wscript w) Done)) st = Some (Ok VUndef, st') \<and>
     flat b st' \<and> distinct P \<and> set P = set (queued (writes w) st) \<and>
     trace st' = trace st @ batch_events (writes w) st @ concat (map (\<lambda>c. [EvInvoke c, EvRun c]) P) \<and>
     set_values (pendingSubscribers st') = [] \<and> batchDepth st' = 0"
proof -
  let ?X = "fold batched_set (writes w) st"
  let ?P = "set_values (pendingSubscribers ?X)"
  have flX: "flat b ?X" using assms(1) by simp
  have ex: "exec (Suc (Suc (Suc n))) (CRun (Batch (of_wscript w) Done)) st = Some (Ok VUndef, flushed b ?X)"
    using batch_flat[OF assms(1,2,4)] by simp
  have P: "distinct ?P" "set ?P = set (queued (writes w) st)"
    using assms(3) by (simp_all add: pending_fold_batched_set distinct_fold_add set_values_fold_add)
  show ?thesis
    using ex P flushed_facts[OF flX] assms(2)
    by (intro exI[of _ "flushed b ?X"] exI[of _ ?P]) (simp add: trace_fold_batched_set)
qed

lemma values_of_batched_set [simp]:
  "values_of (batched_set x st) = (values_of st)(fst x := resolve (snd x) (values_of st (fst x)))"
  by (cases x) (simp add: batched_set_def)

lemma invocations_after_batch:
  assumes "trace st' = trace st @ batch_events ws st0 @ concat (map (\<lambda>c. [EvInvoke c, EvRun c]) P)"
    and "distinct P"
  shows "invocations c st' = invocations c st + (if c \<in> set P then 1 else 0)"
    and "runs c st' = runs c st + (if c \<in> set P then 1 else 0)"
proof -
  have "count_list (concat (map (\<lambda>c. [EvInvoke c, EvRun c]) P)) (EvInvoke c) = count_list P c"
    by (induction P) auto
  then show "invocations c st' = invocations c st + (if c \<in> set P then 1 else 0)"
    using assms by (simp add: invocations_def invocations_batch_events count_list_distinct)
  show "runs c st' = runs c st + (if c \<in> set P then 1 else 0)"
    using assms by (simp add: runs_def runs_batch_events count_list_concat_runs2 count_list_distinct)
qed

lemma nested_writes_queued:
  "queued (writes nested_writes) demo_state = [TEffect 0, TEffect 0]"
  by (simp add: nested_writes_def demo_state_simps changing_def resolve_def object_is_def)

lemma reader_local:
  "\<forall>s \<in> set (reads r \<sigma>). \<sigma>' s = \<sigma> s \<Longrightarrow> reads r \<sigma>' = reads r \<sigma> \<and> result r \<sigma>' = result r \<sigma>"
proof (induction r)
  case (RDone v)
  show ?case by simp
next
  case (RGet s k)
  from RGet.prems have eq: "\<sigma>' s = \<sigma> s" by simp
  from RGet.prems have "\<forall>x \<in> set (reads (k (\<sigma> s)) \<sigma>). \<sigma>' x = \<sigma> x" by simp
  from RGet.IH[OF rangeI this] eq show ?case by simp
qed

lemma recompute_flat:
  assumes "compute (memos st m) = of_reader (b (TMemo m))" "\<not> computing (memos st m)"
    "subscribers_of (DMemo m) st = []"
  shows "recompute rec m st = Some (Ok VUndef, recomputed b m st)"
proof -
  have nf: "subscribers_of (DMemo m) X = [] \<Longrightarrow> notify_from rec (DMemo m) 0 X = Some (Ok VUndef, X)" for X
    by (simp add: notify_from_def)
  show ?thesis using assms
    by (simp add: recompute_def collect_reader try_finally_def bind_def recomputed_def Let_def nf
        collected_def reconciled_def)
qed

lemma recomputed_value [simp]:
  "memo_value (memos (recomputed b m st) m) = result (b (TMemo m)) (values_of st)"
  "hasValue (memos (recomputed b m st) m)"
  "values_of (recomputed b m st) = values_of st"
  by (simp_all add: recomputed_def collected_def reconciled_def)

lemma fold_notify_rerun_memo:
  "hasValue (memos (fold (notify_rerun b) cs st) m) = (TMemo m \<in> set cs \<or> hasValue (memos st m))"
  "memo_value (memos (fold (notify_rerun b) cs st) m) =
     (if TMemo m \<in> set cs then result (b (TMemo m)) (values_of st) else memo_value (memos st m))"
  by (induction cs arbitrary: st) (auto simp: notify_rerun_def)

lemma trackDependency_simple [simp]:
  "values_of (trackDependency d st) = values_of st"
  "compute (memos (trackDependency d st) m) = compute (memos st m)"
  "computing (memos (trackDependency d st) m) = computing (memos st m)"
  "hasValue (memos (trackDependency d st) m) = hasValue (memos st m)"
  "memo_value (memos (trackDependency d st) m) = memo_value (memos st m)"
  "subscribers_of d' (trackDependency d st) = subscribers_of d' st"
  by (simp_all add: trackDependency_def addDependency_def split: option.splits)

lemma memo_get_cached:
  "hasValue (memos st m) \<Longrightarrow>
   memo_get rec m st = Some (Ok (memo_value (memos st m)), trackDependency (DMemo m) st)"
  by (simp add: memo_get_def Let_def)

lemma memo_get_first:
  assumes "flat b st" "\<not> hasValue (memos st m)"
  shows "memo_get rec m st = Some (Ok (result (b (TMemo m)) (values_of st)),
     recomputed b m (trackDependency (DMemo m) st))"
proof -
  let ?st1 = "trackDependency (DMemo m) st"
  have "recompute rec m ?st1 = Some (Ok VUndef, recomputed b m ?st1)"
    using flat_memo[OF assms(1), of m] by (intro recompute_flat) simp_all
  then show ?thesis using assms(2) by (simp add: memo_get_def Let_def bind_def)
qed

lemma memo_get_fresh:
  assumes "flat b st" "synced b st"
  shows "\<exists>st'. memo_get rec m st = Some (Ok (result (b (TMemo m)) (values_of st)), st')"
proof (cases "hasValue (memos st m)")
  case True
  then show ?thesis using assms(2) by (simp add: memo_get_cached synced_def)
next
  case False
  then show ?thesis using memo_get_first[OF assms(1)] by simp
qed

lemma synced_installed_same:
  assumes "synced b st" "resolve a (values_of st s) = values_of st s"
  shows "synced b (installed s a st)"
proof -
  have v: "values_of (installed s a st) = values_of st" using assms(2) by simp
  have "read_set r (installed s a st) = read_set r st" for r
    by (rule read_set_cong) (rule v)
  then show ?thesis using assms(1) by (simp add: synced_def v del: installed_simple(4))
qed

lemma synced_after_notify:
  assumes "flat b st" "synced b st"
  shows "synced b (fold (notify_rerun b) (set_values (subscribers_of (DSig s) st)) (installed s a st))"
    (is "synced b ?st'")
  unfolding synced_def
proof (intro allI impI)
  fix m
  let ?cs = "set_values (subscribers_of (DSig s) st)"
  let ?r = "b (TMemo m)"
  assume hv: "hasValue (memos ?st' m)"
  have rs: "read_set r ?st' = read_set r (installed s a st)" for r
    by (rule read_set_cong) simp
  show "memo_value (memos ?st' m) = result ?r (values_of ?st') \<and>
        collecting (tracker_of (TMemo m) ?st') = read_set ?r ?st'"
  proof (cases "TMemo m \<in> set ?cs")
    case True
    then show ?thesis by (simp add: fold_notify_rerun_memo fold_notify_rerun_collecting rs)
  next
    case False
    with hv have old: "hasValue (memos st m)" by (simp add: fold_notify_rerun_memo)
    with assms(2) have val: "memo_value (memos st m) = result ?r (values_of st)"
      and col: "collecting (tracker_of (TMemo m) st) = read_set ?r st"
      by (simp_all add: synced_def)
    from False have "\<not> set_has (DSig s) (collecting (tracker_of (TMemo m) st))"
      using flat_reads_subscribed[OF assms(1), of "TMemo m" s] by simp
    then have "s \<notin> set (reads ?r (values_of st))" using col by auto
    then have "reads ?r ((values_of st)(s := resolve a (values_of st s))) = reads ?r (values_of st)
        \<and> result ?r ((values_of st)(s := resolve a (values_of st s))) = result ?r (values_of st)"
      by (intro reader_local) auto
    then have loc: "reads ?r (values_of (installed s a st)) = reads ?r (values_of st)"
        "result ?r (values_of (installed s a st)) = result ?r (values_of st)"
      by simp_all
    have "read_set ?r (installed s a st) = read_set ?r st"
      unfolding read_set_def loc(1) ..
    then show ?thesis using False val col loc(2)
      by (simp add: fold_notify_rerun_memo fold_notify_rerun_collecting rs del: installed_simple(4))
  qed
qed

lemma set_keeps_synced:
  assumes "flat b st" "synced b st" "batchDepth st = 0" "length (subscribers_of (DSig s) st) \<le> n"
  shows "\<exists>st'. exec (Suc (Suc n)) (CSet s a) st = Some (Ok (resolve a (values_of st s)), st') \<and>
     flat b st' \<and> synced b st' \<and> values_of st' = (values_of st)(s := resolve a (values_of st s))"
proof (cases "object_is (values_of st s) (resolve a (values_of st s))")
  case True
  then have "resolve a (values_of st s) = values_of st s" by (simp add: object_is_def)
  from synced_installed_same[OF assms(2) this] True assms(1) show ?thesis
    by (simp add: signal_set_same)
next
  case False
  let ?st' = "fold (notify_rerun b) (set_values (subscribers_of (DSig s) st)) (installed s a st)"
  have "exec (Suc (Suc n)) (CSet s a) st = Some (Ok (resolve a (values_of st s)), ?st')"
    using assms False by (simp add: signal_set_flat[where b=b])
  moreover have "flat b ?st'" using assms(1) by (simp add: fold_notify_rerun_flat)
  ultimately show ?thesis using synced_after_notify[OF assms(1,2), of s a] by simp
qed

lemma memo_state_flat: "flat memo_bodies memo_state"
  by (simp add: flat_def memo_bodies_def memo_state_def init_state_def new_effect_def new_memo_def
      new_signal_def new_tracker_def subscribers_of_def tracker_of_def split: sub.splits)

lemma memo_state_simps:
  "values_of memo_state = (\<lambda>_. VUndef)(0 := VNum 1)"
  "subscribers_of d memo_state = []"
  "tracker_of t memo_state = new_tracker"
  "batchDepth memo_state = 0"
  "hasValue (memos memo_state m) = False"
  by (auto simp: memo_state_def init_state_def new_effect_def new_memo_def values_of_def
      new_signal_def new_tracker_def subscribers_of_def tracker_of_def fun_eq_iff split: sub.splits dep.splits)

lemma memo_ready_flat: "flat memo_bodies memo_ready"
  unfolding memo_ready_def by (intro rerun_flat memo_state_flat)

lemma memo_ready_synced: "synced memo_bodies memo_ready"
  by (simp add: synced_def memo_ready_def memo_state_simps rerun_tracker)

lemma memo_ready_simps:
  "values_of memo_ready = (\<lambda>_. VUndef)(0 := VNum 1)"
  "subscribers_of (DSig 0) memo_ready = [Some (TMemo 0)]"
  "batchDepth memo_ready = 0"
  "hasValue (memos memo_ready 0)"
  "memo_value (memos memo_ready 0) = VNum 1"
  by (simp_all add: memo_ready_def memo_state_simps rerun_subscribers read_set_def
      memo_bodies_def resub_def new_tracker_def set_add_def)

lemma poke_simple [simp]:
  "subscribers_of d (poke c st) = subscribers_of d st"
  "tracker_of t (poke c st) = tracker_of t st"
  "batchDepth (poke c st) = batchDepth st"
  "values_of (poke c st) = values_of st"
  "collectorStack (poke c st) = collectorStack st"
  "pendingSubscribers (poke c st) = pendingSubscribers st"
  "busy c' (poke c st) = busy c' st"
  "memos (poke c st) = memos st"
  "effect_fn (effects (poke c st) e) = effect_fn (effects st e)"
  "running (effects (poke c st) e) = running (effects st e)"
  "disposed (effects (poke c st) e) = disposed (effects st e)"
  by (cases c; cases c'; simp add: poke_def busy_def)+

lemma fold_poke_simple [simp]:
  "subscribers_of d (fold poke cs st) = subscribers_of d st"
  "tracker_of t (fold poke cs st) = tracker_of t st"
  "batchDepth (fold poke cs st) = batchDepth st"
  "values_of (fold poke cs st) = values_of st"
  "collectorStack (fold poke cs st) = collectorStack st"
  "pendingSubscribers (fold poke cs st) = pendingSubscribers st"
  "busy c' (fold poke cs st) = busy c' st"
  "memos (fold poke cs st) = memos st"
  "effect_fn (effects (fold poke cs st) e) = effect_fn (effects st e)"
  "running (effects (fold poke cs st) e) = running (effects st e)"
  "disposed (effects (fold poke cs st) e) = disposed (effects st e)"
  by (induction cs arbitrary: st) simp_all

lemma notifySubscriber_busy:
  assumes "busy c st" "batchDepth st \<le> 0"
  shows "notifySubscriber (exec (Suc n)) c st = Some (Ok VUndef, poke c st)"
  using assms by (cases c) (simp_all add: busy_def notifySubscriber_def Let_def invoke_def schedule_def poke_def)

lemma notify_loop_busy:
  assumes "\<forall>c \<in> set (set_values (subscribers_of d st)). busy c st" "batchDepth st \<le> 0"
    and "length (subscribers_of d st) - i < n"
  shows "notify_from (exec n) d i st =
     Some (Ok VUndef, fold poke (set_values (drop i (subscribers_of d st))) st)"
  using assms
proof (induction "length (subscribers_of d st) - i" arbitrary: i st n)
  case 0
  then show ?case by (simp add: notify_from_def)
next
  case (Suc k)
  let ?xs = "subscribers_of d st"
  from Suc.hyps(2) have i: "i < length ?xs" by simp
  from Suc.prems(3) obtain n' where n: "n = Suc n'" by (cases n) auto
  have dr: "drop i ?xs = ?xs ! i # drop (Suc i) ?xs" using i by (simp add: Cons_nth_drop_Suc)
  show ?case
  proof (cases "?xs ! i")
    case None
    have "notify_from (exec n') d (Suc i) st =
        Some (Ok VUndef, fold poke (set_values (drop (Suc i) ?xs)) st)"
      using Suc.hyps(2) Suc.prems n by (intro Suc.hyps(1)) auto
    then show ?thesis using i None n dr by (simp add: notify_from_def)
  next
    case (Some c)
    have "set_has c ?xs" using i Some by (metis nth_mem set_has_def)
    then have "c \<in> set (set_values ?xs)" by (simp add: set_values_mem)
    then have b: "busy c st" using Suc.prems(1) by blast
    have "notify_from (exec n') d (Suc i) (poke c st) =
        Some (Ok VUndef, fold poke (set_values (drop (Suc i) (subscribers_of d (poke c st)))) (poke c st))"
      using Suc.hyps(2) Suc.prems n by (intro Suc.hyps(1)) auto
    then show ?thesis using i Some n dr notifySubscriber_busy[OF b Suc.prems(2)]
      by (simp add: notify_from_def bind_def)
  qed
qed

lemma signal_set_busy:
  assumes "\<forall>c \<in> set (set_values (subscribers_of (DSig s) st)). busy c st" "batchDepth st \<le> 0"
    and "length (subscribers_of (DSig s) st) < n"
  shows "signal_set (exec n) s (Plain w) st = Some (Ok w, self_write s w st)"
proof (cases "object_is (values_of st s) w")
  case True
  then show ?thesis using signal_set_same[of st s "Plain w"]
    by (simp add: self_write_def resolve_def)
next
  case False
  have b: "\<forall>c \<in> set (set_values (subscribers_of (DSig s) (installed s (Plain w) st))). busy c (installed s (Plain w) st)"
    using assms(1) by (auto simp: busy_def split: sub.splits)
  have "notify_from (exec n) (DSig s) 0 (installed s (Plain w) st) = Some (Ok VUndef,
      fold poke (set_values (drop 0 (subscribers_of (DSig s) (installed s (Plain w) st)))) (installed s (Plain w) st))"
    using assms b by (intro notify_loop_busy) simp_all
  then show ?thesis using False
    by (simp add: signal_set_def Let_def installed_def resolve_def values_of_def bind_def self_write_def)
qed

lemma self_write_simple [simp]:
  "subscribers_of d (self_write s w st) = subscribers_of d st"
  "tracker_of t (self_write s w st) = tracker_of t st"
  "batchDepth (self_write s w st) = batchDepth st"
  "values_of (self_write s w st) = (values_of st)(s := w)"
  "collectorStack (self_write s w st) = collectorStack st"
  "pendingSubscribers (self_write s w st) = pendingSubscribers st"
  "busy c (self_write s w st) = busy c st"
  "memos (self_write s w st) = memos st"
  "effect_fn (effects (self_write s w st) e) = effect_fn (effects st e)"
  "running (effects (self_write s w st) e) = running (effects st e)"
  "disposed (effects (self_write s w st) e) = disposed (effects st e)"
  by (simp_all add: self_write_def resolve_def busy_def split: sub.splits)

lemma fold_self_write_simple [simp]:
  "subscribers_of d (fold (self_write s) ws st) = subscribers_of d st"
  "tracker_of t (fold (self_write s) ws st) = tracker_of t st"
  "batchDepth (fold (self_write s) ws st) = batchDepth st"
  "collectorStack (fold (self_write s) ws st) = collectorStack st"
  "pendingSubscribers (fold (self_write s) ws st) = pendingSubscribers st"
  "busy c (fold (self_write s) ws st) = busy c st"
  "memos (fold (self_write s) ws st) = memos st"
  "effect_fn (effects (fold (self_write s) ws st) e) = effect_fn (effects st e)"
  "running (effects (fold (self_write s) ws st) e) = running (effects st e)"
  "disposed (effects (fold (self_write s) ws st) e) = disposed (effects st e)"
  by (induction ws arbitrary: st) simp_all

lemma fold_self_write_value:
  "values_of (fold (self_write s) ws st) = (values_of st)(s := last (values_of st s # ws))"
  by (induction ws arbitrary: st) (simp_all add: fun_upd_triv)

lemma run_sets_busy:
  assumes "\<forall>c \<in> set (set_values (subscribers_of (DSig s) st)). busy c st" "batchDepth st \<le> 0"
    and "length (subscribers_of (DSig s) st) < n"
  shows "user_run (of_wscript (sets s ws)) (exec (Suc n)) st = Some (Ok VUndef, fold (self_write s) ws st)"
  using assms
proof (induction ws arbitrary: st)
  case Nil
  show ?case by (simp add: sets_def)
next
  case (Cons w ws)
  have "signal_set (exec n) s (Plain w) st = Some (Ok w, self_write s w st)"
    using Cons.prems by (intro signal_set_busy)
  moreover have "user_run (of_wscript (sets s ws)) (exec (Suc n)) (self_write s w st)
      = Some (Ok VUndef, fold (self_write s) ws (self_write s w st))"
    using Cons.prems by (intro Cons.IH) simp_all
  moreover have "sets s (w # ws) = WSet s (Plain w) (sets s ws)" by (simp add: sets_def)
  ultimately show ?case by (simp add: bind_def)
qed

lemma self_write_trace:
  "set_values (subscribers_of (DSig s) st) = [TEffect e] \<Longrightarrow>
   trace (fold (self_write s) ws st) = trace st @ self_events (TEffect e) s ws (values_of st s)"
proof (induction ws arbitrary: st)
  case Nil
  show ?case by simp
next
  case (Cons w ws)
  have "set_values (subscribers_of (DSig s) (self_write s w st)) = [TEffect e]"
    using Cons.prems by simp
  from Cons.IH[OF this] Cons.prems show ?case
    by (simp add: self_write_def poke_def resolve_def)
qed

lemma self_write_scheduled:
  "set_values (subscribers_of (DSig s) st) = [TEffect e] \<Longrightarrow>
   scheduled (effects (fold (self_write s) ws st) e)
     = (scheduled (effects st e) \<or> hits ws (values_of st s))"
proof (induction ws arbitrary: st)
  case Nil
  show ?case by simp
next
  case (Cons w ws)
  have "set_values (subscribers_of (DSig s) (self_write s w st)) = [TEffect e]"
    using Cons.prems by simp
  from Cons.IH[OF this] Cons.prems show ?case
    by (auto simp: self_write_def poke_def resolve_def)
qed

lemma prune_noop: "\<forall>d. set_has d es \<longrightarrow> set_has d nd \<Longrightarrow> prune nd es xs = xs"
  by (induction es arbitrary: xs) (auto split: option.splits)

lemma fold_add_noop: "\<forall>d \<in> set ds. set_has d xs \<Longrightarrow> fold set_add ds xs = xs"
  by (induction ds arbitrary: xs) (auto simp: set_add_present)

lemma reconcile_noop:
  assumes "subscriptions (tracker_of t st) = nd" "\<forall>m. \<not> set_has (DMemo m) nd"
  shows "reconcileSubscriptions rec t nd st = Some (Ok VUndef, st)"
proof -
  have "resub t nd nd = (\<lambda>d xs. xs)" by (auto simp: resub_def fun_eq_iff)
  moreover have "fold set_add (set_values nd) (prune nd nd nd) = nd"
    by (simp add: prune_noop fold_add_noop set_values_mem)
  ultimately have "reconciled t nd st = st"
    unfolding reconciled_def assms(1) by (simp add: assms(1)[symmetric])
  then show ?thesis using reconcile_closed[of nd st rec t] assms(2) by simp
qed

lemma collect_known:
  assumes "fn (pushCollector t (set_tracker t ((tracker_of t st)\<lparr>collecting := []\<rparr>) (log (EvRun t) st)))
             = Some (r, st3)"
    and "subscriptions (tracker_of t (popCollector st3)) = collecting (tracker_of t (popCollector st3))"
    and "\<forall>m. \<not> set_has (DMemo m) (collecting (tracker_of t (popCollector st3)))"
  shows "collect rec t fn st = Some (r, popCollector st3)"
  using assms reconcile_noop[OF assms(2,3), of rec]
  by (simp add: collect_def Let_def try_finally_def)

lemma last_run_quiet:
  assumes "effect_fn (effects st e) = GetSig s k" "k (values_of st s) = Done x"
    and "\<not> disposed (effects st e)"
    and "subscriptions (tracker_of (TEffect e) st) = [Some (DSig s)]"
  shows "\<exists>st'. execute rec e st = Some (Ok VUndef, st') \<and> trace st' = trace st @ [EvRun (TEffect e)] \<and>
     \<not> running (effects st' e) \<and> \<not> scheduled (effects st' e) \<and> values_of st' = values_of st"
proof -
  let ?c = "TEffect e"
  let ?A = "set_scheduled e False (set_running e True st)"
  let ?B = "pushCollector ?c (set_tracker ?c ((tracker_of ?c ?A)\<lparr>collecting := []\<rparr>) (log (EvRun ?c) ?A))"
  let ?D = "set_tracker ?c ((tracker_of ?c ?B)\<lparr>collecting := set_add (DSig s) (collecting (tracker_of ?c ?B))\<rparr>) ?B"
  have run: "user_run (GetSig s k) rec ?B = Some (Ok x, ?D)"
    using assms(2) by (simp add: signal_get_def collectorStack_cases[of _ ?c "collectorStack st"]
        values_of_def[symmetric])
  have col: "collect rec ?c (user_run (GetSig s k) rec) ?A = Some (Ok x, popCollector ?D)"
    using assms(4) by (intro collect_known run) (simp_all add: set_add_def)
  show ?thesis
    using assms(1,3) col
    by (intro exI[of _ "set_running e False (popCollector ?D)"])
       (simp add: execute_def try_finally_def bind_def)
qed

lemma self_notifying_run:
  assumes fn: "effect_fn (effects st e) = GetSig s k"
    and body: "k (values_of st s) = of_wscript (sets s ws)"
    and quiet: "hits ws (values_of st s) \<longrightarrow> k (last (values_of st s # ws)) = Done x"
    and idle: "\<not> disposed (effects st e)" "\<not> running (effects st e)"
    and subs: "set_values (subscribers_of (DSig s) st) = [TEffect e]"
    and deps: "subscriptions (tracker_of (TEffect e) st) = [Some (DSig s)]"
    and depth: "batchDepth st = 0"
    and fuel: "length (subscribers_of (DSig s) st) \<le> n"
  shows "\<exists>st'. exec (Suc (Suc (Suc n))) (CInvoke (TEffect e)) st = Some (Ok VUndef, st') \<and>
     trace st' = trace st @ [EvInvoke (TEffect e), EvRun (TEffect e)]
                   @ self_events (TEffect e) s ws (values_of st s)
                   @ (if hits ws (values_of st s) then [EvRun (TEffect e)] else []) \<and>
     \<not> running (effects st' e) \<and> \<not> scheduled (effects st' e) \<and>
     values_of st' s = last (values_of st s # ws)"
proof -
  let ?c = "TEffect e"
  let ?rec = "exec (Suc (Suc n))"
  let ?A = "set_scheduled e False (set_running e True (log (EvInvoke ?c) st))"
  let ?B = "pushCollector ?c (set_tracker ?c ((tracker_of ?c ?A)\<lparr>collecting := []\<rparr>) (log (EvRun ?c) ?A))"
  let ?D = "set_tracker ?c ((tracker_of ?c ?B)\<lparr>collecting := set_add (DSig s) (collecting (tracker_of ?c ?B))\<rparr>) ?B"
  let ?W = "fold (self_write s) ws ?D"
  let ?F = "set_running e False (popCollector ?W)"
  have busyD: "\<forall>c \<in> set (set_values (subscribers_of (DSig s) ?D)). busy c ?D"
    using subs idle by (simp add: busy_def)
  have "user_run (of_wscript (sets s ws)) ?rec ?D = Some (Ok VUndef, ?W)"
    using busyD depth fuel by (intro run_sets_busy) simp_all
  then have run: "user_run (GetSig s k) ?rec ?B = Some (Ok VUndef, ?W)"
    using body by (simp add: signal_get_def collectorStack_cases[of _ ?c "collectorStack st"]
        values_of_def[symmetric])
  have col: "collect ?rec ?c (user_run (GetSig s k) ?rec) ?A = Some (Ok VUndef, popCollector ?W)"
    using deps by (intro collect_known run) (simp_all add: set_add_def)
  have subsD: "set_values (subscribers_of (DSig s) ?D) = [?c]" using subs by simp
  have trW: "trace ?W = trace st @ [EvInvoke ?c, EvRun ?c] @ self_events ?c s ws (values_of st s)"
    using self_write_trace[OF subsD, of ws] by simp
  have schW: "scheduled (effects ?F e) = hits ws (values_of st s)"
    using self_write_scheduled[OF subsD, of ws] by simp
  have valF: "values_of ?F = (values_of st)(s := last (values_of st s # ws))"
    by (simp add: fold_self_write_value)
  have first: "execute ?rec e (log (EvInvoke ?c) st) =
      (if hits ws (values_of st s) then ?rec (CExecute e) ?F else Some (Ok VUndef, ?F))"
    using fn idle col schW by (simp add: execute_def try_finally_def bind_def del: exec_Suc)
  have inv: "exec (Suc (Suc (Suc n))) (CInvoke ?c) st = execute ?rec e (log (EvInvoke ?c) st)"
    using idle by (simp add: invoke_def schedule_def)
  show ?thesis
  proof (cases "hits ws (values_of st s)")
    case False
    then show ?thesis using inv first trW valF schW
      by (intro exI[of _ ?F]) (simp del: exec_Suc)
  next
    case True
    have "\<exists>st'. execute (exec (Suc n)) e ?F = Some (Ok VUndef, st') \<and>
        trace st' = trace ?F @ [EvRun ?c] \<and>
        \<not> running (effects st' e) \<and> \<not> scheduled (effects st' e) \<and> values_of st' = values_of ?F"
      using fn quiet True idle deps valF by (intro last_run_quiet[where k=k and s=s and x=x]) simp_all
    then obtain st' where
      "execute (exec (Suc n)) e ?F = Some (Ok VUndef, st')" "trace st' = trace ?F @ [EvRun ?c]"
      "\<not> running (effects st' e)" "\<not> scheduled (effects st' e)" "values_of st' = values_of ?F"
      by blast
    then show ?thesis using inv first True trW valF
      by (intro exI[of _ st']) simp
  qed
qed

lemma runs_self_events: "count_list (self_events c s ws v) (EvRun c') = 0"
  by (induction ws arbitrary: v) (auto simp: count_list_0_iff)

lemma set_scheduled_twice [simp]: "set_scheduled e b (set_scheduled e b' st) = set_scheduled e b st"
  by (simp add: set_scheduled_def)

lemma loop_state_simps:
  "effect_fn (effects loop_state 0) = GetSig 0 loop_body"
  "values_of loop_state 0 = VNum 0"
  "disposed (effects loop_state 0) = False"
  "running (effects loop_state 0) = False"
  "subscribers_of (DSig 0) loop_state = [Some (TEffect 0)]"
  "subscriptions (tracker_of (TEffect 0) loop_state) = [Some (DSig 0)]"
  "batchDepth loop_state = 0"
  "trace loop_state = []"
  by (simp_all add: loop_state_def init_state_def values_of_def subscribers_of_def tracker_of_def)

lemma grows_refl [simp]: "grows st st"
  by (simp add: grows_def)

lemma grows_trans: "grows a b \<Longrightarrow> grows b c \<Longrightarrow> grows a c"
  by (auto simp: grows_def)

lemma grows_same_trace: "trace st' = trace st \<Longrightarrow> grows st st'"
  by (simp add: grows_def)

lemma grows_log [simp]: "grows st (log ev st)"
  by (simp add: grows_def)

lemma extends_None [simp]: "extends None st"
  by (simp add: extends_def)

lemma extends_Some [simp]: "extends (Some (r, st')) st = grows st st'"
  by (simp add: extends_def)

lemma extends_from: "grows st st1 \<Longrightarrow> extends m st1 \<Longrightarrow> extends m st"
  by (auto simp: extends_def intro: grows_trans)

lemma extends_bind:
  assumes "extends m st" "\<And>v st1. extends (f v st1) st1"
  shows "extends (bind m f) st"
  unfolding extends_def
proof (intro allI impI)
  fix r st' assume b: "bind m f = Some (r, st')"
  then obtain r1 st1 where m: "m = Some (r1, st1)"
    by (cases m) (auto simp: bind_def)
  with assms(1) have g: "grows st st1" by simp
  show "grows st st'"
  proof (cases r1)
    case (Ok v)
    with b m have "f v st1 = Some (r, st')" by (simp add: bind_def)
    with assms(2)[of v st1] have "grows st1 st'" by simp
    with g show ?thesis by (rule grows_trans)
  next
    case (Throw e)
    with b m g show ?thesis by (simp add: bind_def)
  qed
qed

lemma extends_try_finally:
  assumes "extends m st" "\<And>st1. extends (h st1) st1"
  shows "extends (try_finally m h) st"
  unfolding extends_def
proof (intro allI impI)
  fix r st' assume b: "try_finally m h = Some (r, st')"
  then obtain r1 st1 where m: "m = Some (r1, st1)"
    by (cases m) (auto simp: try_finally_def)
  with assms(1) have g: "grows st st1" by simp
  from b m obtain r2 where "h st1 = Some (r2, st')"
    by (auto simp: try_finally_def split: option.splits res.splits prod.splits)
  with assms(2)[of st1] have "grows st1 st'" by simp
  with g show "grows st st'" by (rule grows_trans)
qed

lemma extendingD: "extending rec \<Longrightarrow> extends (rec c st) st"
  by (simp add: extending_def)

lemma untrack_extends:
  assumes "\<And>st1. extends (fn st1) st1"
  shows "extends (untrack fn st) st"
proof (cases "collectorStack st")
  case Nil
  then show ?thesis using assms by (simp add: untrack_def)
next
  case (Cons previous rest)
  have "extends (fn (popCollector st)) st"
    by (rule extends_from[OF _ assms]) (simp add: grows_same_trace)
  then show ?thesis using Cons
    by (simp add: untrack_def) (intro extends_try_finally, simp_all add: grows_same_trace)
qed

lemma flush_queue_extends:
  assumes "extending rec"
  shows "extends (flush_queue rec cs st) st"
proof (induction cs arbitrary: st)
  case Nil
  show ?case by simp
next
  case (Cons c cs)
  show ?case
    unfolding flush_queue.simps
    by (rule extends_bind[OF extendingD[OF assms]]) (rule Cons.IH)
qed

lemma flushSubscribers_extends:
  assumes "extending rec"
  shows "extends (flushSubscribers rec st) st"
proof (cases "set_size (pendingSubscribers st) > 0")
  case False
  then show ?thesis by (simp add: flushSubscribers_def)
next
  case True
  have "extends (flush_queue rec (set_values (pendingSubscribers st)) (set_pending [] st)) st"
    by (rule extends_from[OF _ flush_queue_extends[OF assms]]) (simp add: grows_same_trace)
  then have "extends (bind (flush_queue rec (set_values (pendingSubscribers st)) (set_pending [] st))
      (\<lambda>_. rec CFlush)) st"
    by (rule extends_bind) (rule extendingD[OF assms])
  then show ?thesis using True by (simp add: flushSubscribers_def)
qed

lemma batch_extends:
  assumes "extending rec" "\<And>st1. extends (fn st1) st1"
  shows "extends (batch rec fn st) st"
  unfolding batch_def
proof (rule extends_try_finally)
  show "extends (fn (set_batchDepth (batchDepth st + 1) st)) st"
    by (rule extends_from[OF _ assms(2)]) (simp add: grows_same_trace)
next
  fix st1
  let ?st2 = "set_batchDepth (batchDepth st1 - 1) st1"
  have g: "grows st1 ?st2" by (simp add: grows_same_trace)
  have "extends (flushSubscribers rec ?st2) st1"
    by (rule extends_from[OF g flushSubscribers_extends[OF assms(1)]])
  moreover have "extends (Some (Ok VUndef, ?st2)) st1" using g by simp
  ultimately show "extends (let st'' = ?st2
      in if batchDepth st'' = 0 then flushSubscribers rec st'' else Some (Ok VUndef, st'')) st1"
    unfolding Let_def by (rule if_split[THEN iffD2, OF conjI[OF impI impI]])
qed

lemma user_run_extends:
  assumes "extending rec"
  shows "extends (user_run p rec st) st"
proof (induction p arbitrary: st)
  case (Done v)
  show ?case by simp
next
  case (Fail e)
  show ?case by simp
next
  case (GetSig s k)
  have g: "grows st (trackDependency (DSig s) st)"
    by (simp add: grows_same_trace trackDependency_def addDependency_def split: option.splits)
  show ?case
    by (simp add: signal_get_def Let_def)
       (rule extends_from[OF g GetSig.IH[OF rangeI]])
next
  case (GetMemo m k)
  show ?case unfolding user_run.simps
    by (rule extends_bind[OF extendingD[OF assms]]) (rule GetMemo.IH[OF rangeI])
next
  case (SetSig s a k)
  show ?case unfolding user_run.simps
    by (rule extends_bind[OF extendingD[OF assms]]) (rule SetSig.IH[OF rangeI])
next
  case (Untrack p k)
  show ?case unfolding user_run.simps
    by (rule extends_bind[OF untrack_extends]) (rule Untrack.IH(1), rule Untrack.IH(2)[OF rangeI])
next
  case (Batch p k)
  show ?case unfolding user_run.simps
    by (rule extends_bind[OF batch_extends[OF assms]]) (rule Batch.IH(1), rule Batch.IH(2)[OF rangeI])
qed

lemma subscribe_extends:
  assumes "extending rec"
  shows "extends (subscribe rec d t st) st"
proof (cases d)
  case (DSig s)
  then show ?thesis by (simp add: subscribe_def Let_def grows_same_trace set_subscribers_def)
next
  case (DMemo m)
  let ?st1 = "set_subscribers d (set_add t (subscribers_of d st)) st"
  have g: "grows st ?st1" by (cases d) (simp_all add: grows_same_trace set_subscribers_def)
  have "extends (rec (CRecompute m) ?st1) st"
    by (rule extends_from[OF g extendingD[OF assms]])
  then show ?thesis using DMemo g by (simp add: subscribe_def Let_def)
qed

lemma add_new_extends:
  assumes "extending rec"
  shows "extends (add_new rec t es st) st"
proof (induction es arbitrary: st)
  case Nil
  show ?case by simp
next
  case (Cons e es)
  show ?case
  proof (cases e)
    case None
    then show ?thesis using Cons.IH by simp
  next
    case (Some d)
    show ?thesis
    proof (cases "set_has d (subscriptions (tracker_of t st))")
      case True
      then show ?thesis using Some Cons.IH by simp
    next
      case False
      have "extends (bind (subscribe rec d t st)
                 (\<lambda>_ st1. add_new rec t es
                    (set_tracker t ((tracker_of t st1)
                       \<lparr>subscriptions := set_add d (subscriptions (tracker_of t st1))\<rparr>) st1))) st"
      proof (rule extends_bind[OF subscribe_extends[OF assms]])
        fix v :: val and st1
        show "extends (add_new rec t es (set_tracker t ((tracker_of t st1)
                       \<lparr>subscriptions := set_add d (subscriptions (tracker_of t st1))\<rparr>) st1)) st1"
          by (rule extends_from[OF _ Cons.IH]) (simp add: grows_same_trace)
      qed
      then show ?thesis using Some False by simp
    qed
  qed
qed

lemma trace_remove_stale [simp]: "trace (remove_stale t nd es st) = trace st"
  by (simp add: remove_stale_closed)

lemma reconcile_extends:
  assumes "extending rec"
  shows "extends (reconcileSubscriptions rec t nd st) st"
  unfolding reconcileSubscriptions_def
  by (rule extends_from[OF _ add_new_extends[OF assms]]) (simp add: grows_same_trace)

lemma collect_extends:
  assumes "extending rec" "\<And>st1. extends (fn st1) st1"
  shows "extends (collect rec t fn st) st"
  unfolding collect_def Let_def
proof (rule extends_try_finally)
  show "extends (fn (pushCollector t (set_tracker t ((tracker_of t st)\<lparr>collecting := []\<rparr>)
      (log (EvRun t) st)))) st"
    by (rule extends_from[OF _ assms(2)]) (simp add: grows_def)
next
  fix st1
  show "extends (reconcileSubscriptions rec t (collecting (tracker_of t (popCollector st1)))
      (popCollector st1)) st1"
    by (rule extends_from[OF _ reconcile_extends[OF assms(1)]]) (simp add: grows_same_trace)
qed

lemma notifySubscriber_extends:
  assumes "extending rec"
  shows "extends (notifySubscriber rec c st) (log (EvNotify c) st)"
  using extendingD[OF assms, of "CInvoke c" "log (EvNotify c) st"]
  by (simp add: notifySubscriber_def Let_def grows_same_trace)

lemma notify_from_extends:
  assumes "extending rec"
  shows "extends (notify_from rec d i st) st"
proof -
  let ?xs = "subscribers_of d st"
  show ?thesis
  proof (cases "i < length ?xs")
    case False
    then show ?thesis by (simp add: notify_from_def)
  next
    case True
    show ?thesis
    proof (cases "?xs ! i")
      case None
      then show ?thesis using True extendingD[OF assms] by (simp add: notify_from_def)
    next
      case (Some c)
      have "extends (notifySubscriber rec c st) st"
        by (rule extends_from[OF _ notifySubscriber_extends[OF assms]]) simp
      then have "extends (bind (notifySubscriber rec c st) (\<lambda>_. rec (CNotifyFrom d (Suc i)))) st"
        by (rule extends_bind) (rule extendingD[OF assms])
      then show ?thesis using True Some by (simp add: notify_from_def)
    qed
  qed
qed

lemma signal_set_extends:
  assumes "extending rec"
  shows "extends (signal_set rec s a st) st"
proof -
  let ?st1 = "log (EvWrite s (resolve a (values_of st s))) (set_sig_value s (resolve a (values_of st s)) st)"
  have g: "grows st ?st1" by (simp add: grows_def)
  have "extends (bind (notify_from rec (DSig s) 0 ?st1) (\<lambda>_ st2. Some (Ok (resolve a (values_of st s)), st2))) st"
    by (rule extends_from[OF g]) (rule extends_bind[OF notify_from_extends[OF assms]], simp)
  then show ?thesis using g
    by (simp add: signal_set_def Let_def resolve_def values_of_def)
qed

lemma recompute_extends:
  assumes "extending rec"
  shows "extends (recompute rec m st) st"
proof (cases "computing (memos st m)")
  case True
  then show ?thesis by (simp add: recompute_def)
next
  case False
  have "extends (try_finally
             (bind (collect rec (TMemo m) (user_run (compute (memos st m)) rec) (set_computing m True st))
                (\<lambda>nextValue st1.
                   let changed = (\<not> hasValue (memos st1 m)
                                   \<or> \<not> object_is (memo_value (memos st1 m)) nextValue);
                       st2 = set_memo_value m nextValue st1
                   in if changed then notify_from rec (DMemo m) 0 st2 else Some (Ok VUndef, st2)))
             (\<lambda>st3. Some (Ok VUndef, set_computing m False st3))) st"
  proof (rule extends_try_finally)
    show "extends (bind (collect rec (TMemo m) (user_run (compute (memos st m)) rec) (set_computing m True st))
                (\<lambda>nextValue st1.
                   let changed = (\<not> hasValue (memos st1 m)
                                   \<or> \<not> object_is (memo_value (memos st1 m)) nextValue);
                       st2 = set_memo_value m nextValue st1
                   in if changed then notify_from rec (DMemo m) 0 st2 else Some (Ok VUndef, st2))) st"
    proof (rule extends_bind)
      show "extends (collect rec (TMemo m) (user_run (compute (memos st m)) rec) (set_computing m True st)) st"
        by (rule extends_from[OF _ collect_extends[OF assms user_run_extends[OF assms]]])
           (simp add: grows_same_trace)
    next
      fix v st1
      have "extends (notify_from rec (DMemo m) 0 (set_memo_value m v st1)) st1"
        by (rule extends_from[OF _ notify_from_extends[OF assms]]) (simp add: grows_same_trace)
      then show "extends (let changed = (\<not> hasValue (memos st1 m)
                                   \<or> \<not> object_is (memo_value (memos st1 m)) v);
                       st2 = set_memo_value m v st1
                   in if changed then notify_from rec (DMemo m) 0 st2 else Some (Ok VUndef, st2)) st1"
        by (simp add: Let_def grows_same_trace)
    qed
  next
    fix st1 show "extends (Some (Ok VUndef, set_computing m False st1)) st1"
      by (simp add: grows_same_trace)
  qed
  then show ?thesis using False by (simp add: recompute_def)
qed

lemma memo_get_extends:
  assumes "extending rec"
  shows "extends (memo_get rec m st) st"
proof -
  let ?st1 = "trackDependency (DMemo m) st"
  have g: "grows st ?st1"
    by (simp add: grows_same_trace trackDependency_def addDependency_def split: option.splits)
  have "extends (bind (recompute rec m ?st1) (\<lambda>_ st2. Some (Ok (memo_value (memos st2 m)), st2))) st"
    by (rule extends_from[OF g]) (rule extends_bind[OF recompute_extends[OF assms]], simp)
  then show ?thesis using g by (simp add: memo_get_def Let_def)
qed

lemma execute_extends:
  assumes "extending rec"
  shows "extends (execute rec e st) st"
proof (cases "disposed (effects st e)")
  case True
  then show ?thesis by (simp add: execute_def)
next
  case False
  have "extends (bind (try_finally
                   (collect rec (TEffect e) (user_run (effect_fn (effects st e)) rec)
                      (set_scheduled e False (set_running e True st)))
                   (\<lambda>st1. Some (Ok VUndef, set_running e False st1)))
             (\<lambda>_ st2. if scheduled (effects st2 e) then rec (CExecute e) st2
                      else Some (Ok VUndef, st2))) st"
  proof (rule extends_bind)
    show "extends (try_finally
                   (collect rec (TEffect e) (user_run (effect_fn (effects st e)) rec)
                      (set_scheduled e False (set_running e True st)))
                   (\<lambda>st1. Some (Ok VUndef, set_running e False st1))) st"
    proof (rule extends_try_finally)
      show "extends (collect rec (TEffect e) (user_run (effect_fn (effects st e)) rec)
                      (set_scheduled e False (set_running e True st))) st"
        by (rule extends_from[OF _ collect_extends[OF assms user_run_extends[OF assms]]])
           (simp add: grows_same_trace)
    next
      fix st1 show "extends (Some (Ok VUndef, set_running e False st1)) st1"
        by (simp add: grows_same_trace)
    qed
  next
    fix v :: val and st2
    show "extends (if scheduled (effects st2 e) then rec (CExecute e) st2 else Some (Ok VUndef, st2)) st2"
      using extendingD[OF assms, of "CExecute e" st2] by simp
  qed
  then show ?thesis using False by (simp add: execute_def)
qed

lemma schedule_extends:
  assumes "extending rec"
  shows "extends (schedule rec e st) st"
  using execute_extends[OF assms, of e st]
  by (simp add: schedule_def grows_same_trace)

lemma invoke_extends:
  assumes "extending rec"
  shows "extends (invoke rec t st) st"
proof -
  have g: "grows st (log (EvInvoke t) st)" by simp
  show ?thesis
    using extends_from[OF g recompute_extends[OF assms]] extends_from[OF g schedule_extends[OF assms]]
    by (cases t) (simp_all add: invoke_def Let_def)
qed

lemma step_extending: "extending rec \<Longrightarrow> extending (step rec)"
  unfolding extending_def[of "step rec"] step_def
  by (auto split: call.splits
      intro: user_run_extends memo_get_extends signal_set_extends recompute_extends
        notify_from_extends invoke_extends execute_extends flushSubscribers_extends)

lemma exec_extending: "extending (exec n)"
proof (induction n)
  case 0
  show ?case by (simp add: extending_def)
next
  case (Suc n)
  show ?case unfolding exec.simps(2) by (rule step_extending[OF Suc])
qed

lemma exec_grows: "exec n c st = Some (r, st') \<Longrightarrow> grows st st'"
  using exec_extending[of n] by (auto simp: extending_def extends_def)

lemma notifications_grows: "grows st st' \<Longrightarrow> notifications st \<le> notifications st'"
  by (auto simp: grows_def notifications_def)

lemma notifications_log [simp]:
  "notifications (log ev st) = notifications st + (if is_notify ev then 1 else 0)"
  by (simp add: notifications_def log_def)

lemma notifications_installed [simp]: "notifications (installed s a st) = notifications st"
  by (simp add: installed_def notifications_def log_def set_sig_value_def)

lemma notify_loop_silent:
  assumes "exec n (CNotifyFrom d i) st = Some (r, st')"
    and "set_values (drop i (subscribers_of d st)) = []"
  shows "st' = st"
  using assms
proof (induction n arbitrary: i)
  case 0
  then show ?case by simp
next
  case (Suc n)
  show ?case
  proof (cases "i < length (subscribers_of d st)")
    case False
    then show ?thesis using Suc.prems(1) by (simp add: exec.simps(2) step_def notify_from_def)
  next
    case True
    then have split: "drop i (subscribers_of d st)
        = subscribers_of d st ! i # drop (Suc i) (subscribers_of d st)"
      by (simp add: Cons_nth_drop_Suc)
    show ?thesis
    proof (cases "subscribers_of d st ! i")
      case None
      then have "exec n (CNotifyFrom d (Suc i)) st = Some (r, st')"
        using Suc.prems(1) True by (simp add: exec.simps(2) step_def notify_from_def)
      moreover have "set_values (drop (Suc i) (subscribers_of d st)) = []"
        using Suc.prems(2) None split by simp
      ultimately show ?thesis by (rule Suc.IH)
    next
      case (Some c)
      then show ?thesis using Suc.prems(2) split by simp
    qed
  qed
qed

lemma notify_loop_announces:
  assumes "exec n (CNotifyFrom d i) st = Some (r, st')"
    and "set_values (drop i (subscribers_of d st)) \<noteq> []"
  shows "notifications st < notifications st'"
  using assms
proof (induction n arbitrary: i)
  case 0
  then show ?case by simp
next
  case (Suc n)
  show ?case
  proof (cases "i < length (subscribers_of d st)")
    case False
    then show ?thesis using Suc.prems(2) by simp
  next
    case True
    then have split: "drop i (subscribers_of d st)
        = subscribers_of d st ! i # drop (Suc i) (subscribers_of d st)"
      by (simp add: Cons_nth_drop_Suc)
    show ?thesis
    proof (cases "subscribers_of d st ! i")
      case None
      then have "exec n (CNotifyFrom d (Suc i)) st = Some (r, st')"
        using Suc.prems(1) True by (simp add: exec.simps(2) step_def notify_from_def)
      moreover have "set_values (drop (Suc i) (subscribers_of d st)) \<noteq> []"
        using Suc.prems(2) None split by simp
      ultimately show ?thesis by (rule Suc.IH)
    next
      case (Some c)
      have run: "bind (notifySubscriber (exec n) c st) (\<lambda>_. exec n (CNotifyFrom d (Suc i)))
          = Some (r, st')"
        using Suc.prems(1) True Some by (simp add: exec.simps(2) step_def notify_from_def)
      then obtain r1 st1 where first: "notifySubscriber (exec n) c st = Some (r1, st1)"
        by (cases "notifySubscriber (exec n) c st") (auto simp: bind_def)
      have g1: "grows (log (EvNotify c) st) st1"
        using notifySubscriber_extends[OF exec_extending, of n c st] first by (simp add: extends_def)
      have g2: "grows st1 st'"
      proof (cases r1)
        case (Throw e)
        then show ?thesis using run first by (simp add: bind_def)
      next
        case (Ok v)
        then have "exec n (CNotifyFrom d (Suc i)) st1 = Some (r, st')"
          using run first by (simp add: bind_def)
        then show ?thesis by (rule exec_grows)
      qed
      have "notifications st + 1 \<le> notifications st1"
        using notifications_grows[OF g1] by simp
      also have "\<dots> \<le> notifications st'" by (rule notifications_grows[OF g2])
      finally show ?thesis by simp
    qed
  qed
qed

lemma set_gate:
  assumes "exec n (CSet s a) st = Some (r, st')"
  shows "notifications st < notifications st'
     \<longleftrightarrow> \<not> object_is (values_of st s) (resolve a (values_of st s))
          \<and> set_values (subscribers_of (DSig s) st) \<noteq> []"
proof (cases n)
  case 0
  then show ?thesis using assms by simp
next
  case (Suc k)
  then have run: "signal_set (exec k) s a st = Some (r, st')"
    using assms by (simp add: exec.simps(2) step_def)
  show ?thesis
  proof (cases "object_is (values_of st s) (resolve a (values_of st s))")
    case True
    then show ?thesis using run by (auto simp: signal_set_same)
  next
    case False
    have subs: "subscribers_of (DSig s) (installed s a st) = subscribers_of (DSig s) st"
      by (simp add: installed_def)
    from False run
    have "bind (notify_from (exec k) (DSig s) 0 (installed s a st))
             (\<lambda>_ st2. Some (Ok (resolve a (values_of st s)), st2)) = Some (r, st')"
      by (simp add: signal_set_def Let_def installed_def resolve_def values_of_def)
    then obtain r1 where loop: "notify_from (exec k) (DSig s) 0 (installed s a st) = Some (r1, st')"
      by (cases "notify_from (exec k) (DSig s) 0 (installed s a st)")
         (auto simp: bind_def split: res.splits)
    then have loop': "exec (Suc k) (CNotifyFrom (DSig s) 0) (installed s a st) = Some (r1, st')"
      by (simp add: exec.simps(2) step_def)
    show ?thesis
    proof (cases "set_values (subscribers_of (DSig s) st) = []")
      case True
      then have "st' = installed s a st"
        using notify_loop_silent[OF loop'] subs by simp
      then show ?thesis using True by simp
    next
      case nonempty: False
      then have "notifications (installed s a st) < notifications st'"
        using notify_loop_announces[OF loop'] subs by simp
      then show ?thesis using False nonempty by simp
    qed
  qed
qed

lemma notifications_fold_notify_rerun:
  "notifications (fold (notify_rerun b) cs st) = notifications st + length cs"
  by (induction cs arbitrary: st) (simp_all add: notifications_def)

lemma set_announces_each:
  assumes "flat b st" "batchDepth st = 0" "length (subscribers_of (DSig s) st) \<le> n"
    and "\<not> object_is (values_of st s) (resolve a (values_of st s))"
  shows "\<exists>st'. exec (Suc (Suc n)) (CSet s a) st = Some (Ok (resolve a (values_of st s)), st') \<and>
     notifications st' = notifications st + length (set_values (subscribers_of (DSig s) st))"
  using assms by (simp add: signal_set_flat[where b=b] notifications_fold_notify_rerun)

lemma set_has_reconciled_subscriptions:
  "set_has d (subscriptions (tracker_of t (reconciled t nd st))) \<longleftrightarrow> set_has d nd"
  by (auto simp: reconciled_def set_values_mem)

lemma collecting_reconciled [simp]:
  "collecting (tracker_of t (reconciled t nd st)) = collecting (tracker_of t st)"
  by (simp add: reconciled_def)

lemma collect_reconciles:
  assumes "fn (pushCollector t (set_tracker t ((tracker_of t st)\<lparr>collecting := []\<rparr>) (log (EvRun t) st)))
             = Some (r, st3)"
    and "\<forall>m. set_has (DMemo m) (collecting (tracker_of t (popCollector st3)))
           \<longrightarrow> hasValue (memos st3 m)"
  shows "\<exists>st'. collect rec t fn st = Some (r, st') \<and>
     collecting (tracker_of t st') = collecting (tracker_of t (popCollector st3)) \<and>
     (\<forall>d. set_has d (subscriptions (tracker_of t st')) \<longleftrightarrow> set_has d (collecting (tracker_of t st')))"
proof -
  let ?nd = "collecting (tracker_of t (popCollector st3))"
  have hv: "\<forall>m. set_has (DMemo m) ?nd \<longrightarrow> hasValue (memos (popCollector st3) m)"
    using assms(2) by (simp add: popCollector_def)
  have "collect rec t fn st = Some (r, reconciled t ?nd (popCollector st3))"
    using assms(1) reconcile_closed[OF hv, of rec t]
    by (simp add: collect_def Let_def try_finally_def)
  then show ?thesis
    by (simp add: set_has_reconciled_subscriptions)
qed

lemma mutable_createAtPath [simp]: "mutable (createAtPath v path) = mutable v"
  by (simp add: createAtPath_def)

lemma src_createAtPath [simp]: "src (createAtPath v path) = src v"
  by (simp add: createAtPath_def)

lemma vpath_createAtPath [simp]: "vpath (createAtPath v path) = path"
  by (simp add: createAtPath_def)

lemma createAtPath_twice [simp]: "createAtPath (createAtPath v p) q = createAtPath v q"
  by (simp add: createAtPath_def)

lemma createStore_view [simp]:
  "mutable (fst (createStore s v0 st0)) = False"
  "src (fst (createStore s v0 st0)) = s"
  "vpath (fst (createStore s v0 st0)) = []"
  by (simp_all add: createStore_def createReactiveProxy_def)

lemma proxy_get_view:
  assumes "proxy_get v prop st = (View w, st1)"
  shows "w = createAtPath v (vpath v @ [prop])"
  using assms
  by (auto simp: proxy_get_def Let_def split: prod.splits val.splits key.splits if_splits)

lemma alloc_allocated: "alloc ob st = (VRef (nextRef st), allocated ob st)"
  by (simp add: alloc_def allocated_def)

lemma heap_upd [simp]:
  "heap (log ev st) = heap st"
  "heap (set_sig_value s v st) = heap st"
  "heap (set_memo_value m v st) = heap st"
  "heap (set_computing m b st) = heap st"
  "heap (set_running e b st) = heap st"
  "heap (set_scheduled e b st) = heap st"
  "heap (set_disposed e b st) = heap st"
  "heap (set_pending xs st) = heap st"
  "heap (set_batchDepth n st) = heap st"
  "heap (pushCollector t' st) = heap st"
  "heap (popCollector st) = heap st"
  "heap (set_tracker t tr st) = heap st"
  "heap (map_subscribers F st) = heap st"
  by (auto simp: upd_defs set_tracker_def map_subscribers_def split: sub.splits)

lemma nextRef_upd [simp]:
  "nextRef (log ev st) = nextRef st"
  "nextRef (set_sig_value s v st) = nextRef st"
  "nextRef (set_memo_value m v st) = nextRef st"
  "nextRef (set_computing m b st) = nextRef st"
  "nextRef (set_running e b st) = nextRef st"
  "nextRef (set_scheduled e b st) = nextRef st"
  "nextRef (set_disposed e b st) = nextRef st"
  "nextRef (set_pending xs st) = nextRef st"
  "nextRef (set_batchDepth n st) = nextRef st"
  "nextRef (pushCollector t' st) = nextRef st"
  "nextRef (popCollector st) = nextRef st"
  "nextRef (set_tracker t tr st) = nextRef st"
  "nextRef (map_subscribers F st) = nextRef st"
  by (auto simp: upd_defs set_tracker_def map_subscribers_def split: sub.splits)

lemma heap_rerun [simp]:
  "heap (rerun b c st) = heap st"
  "nextRef (rerun b c st) = nextRef st"
  by (cases c; simp add: rerun_def collected_def reconciled_def)+

lemma heap_fold_notify_rerun [simp]:
  "heap (fold (notify_rerun b) cs st) = heap st"
  "nextRef (fold (notify_rerun b) cs st) = nextRef st"
  by (induction cs arbitrary: st) (simp_all add: notify_rerun_def)

lemma heap_installed [simp]:
  "heap (installed s a st) = heap st"
  "nextRef (installed s a st) = nextRef st"
  by (simp_all add: installed_def)

lemma allocated_fields [simp]:
  "heap (allocated ob st) = (heap st)(nextRef st := ob)"
  "nextRef (allocated ob st) = Suc (nextRef st)"
  "signals (allocated ob st) = signals st"
  "memos (allocated ob st) = memos st"
  "effects (allocated ob st) = effects st"
  "collectorStack (allocated ob st) = collectorStack st"
  "batchDepth (allocated ob st) = batchDepth st"
  "pendingSubscribers (allocated ob st) = pendingSubscribers st"
  "trace (allocated ob st) = trace st"
  by (simp_all add: allocated_def)

lemma allocated_views [simp]:
  "values_of (allocated ob st) = values_of st"
  "subscribers_of d (allocated ob st) = subscribers_of d st"
  "tracker_of t (allocated ob st) = tracker_of t st"
  "signal_peek s (allocated ob st) = signal_peek s st"
  "notifications (allocated ob st) = notifications st"
  by (simp_all add: values_of_def subscribers_of_def tracker_of_def signal_peek_def
      notifications_def fun_eq_iff split: dep.splits sub.splits)

lemma flat_allocated [simp]: "flat b (allocated ob st) = flat b st"
  by (simp add: flat_def)

lemma map_of_upd_prop: "map_of (upd_prop ps k v) = (map_of ps)(k \<mapsto> v)"
  by (induction ps) (auto simp: fun_eq_iff)

lemma map_of_fold_upd_prop:
  "distinct (map fst rs) \<Longrightarrow>
   map_of (fold (\<lambda>p ps. upd_prop ps (fst p) (snd p)) rs ps) = map_of ps ++ map_of rs"
proof (induction rs arbitrary: ps)
  case Nil
  show ?case by simp
next
  case (Cons r rs)
  have "map_of (fold (\<lambda>p ps. upd_prop ps (fst p) (snd p)) rs (upd_prop ps (fst r) (snd r)))
      = map_of (upd_prop ps (fst r) (snd r)) ++ map_of rs"
    using Cons.prems by (intro Cons.IH) simp
  also have "\<dots> = (map_of ps ++ map_of rs)(fst r \<mapsto> snd r)"
    using Cons.prems by (simp add: map_of_upd_prop map_add_upd_left dom_map_of_conv_image_fst)
  also have "\<dots> = map_of ps ++ map_of (r # rs)"
    by (cases r) simp
  finally show ?case by (simp only: fold_simps)
qed

lemma props_of_spread2:
  "distinct (map fst (props_of r)) \<Longrightarrow>
   map_of (props_of (spread2 p r)) = map_of (props_of p) ++ map_of (props_of r)"
  by (simp add: spread2_def props_of_def[of "Obj _"] map_of_fold_upd_prop)

lemma resolve_next_cases:
  assumes "resolve_next next previous st = (x, st1)"
  shows "st1 = st \<or> (\<exists>ob. st1 = allocated ob st \<and> x = VRef (nextRef st))"
  using assms by (auto simp: resolve_next_def alloc_allocated split: storearg.splits made.splits)

lemma signal_peek_values: "signal_peek s st = values_of st s"
  by (simp add: signal_peek_def values_of_def)

lemma resolve_next_frame:
  assumes "resolve_next next previous st = (x, st1)" "p < nextRef st"
  shows "p < nextRef st1" "heap st1 p = heap st p" "signal_peek s st1 = signal_peek s st"
    "subscribers_of d st1 = subscribers_of d st" "flat b st1 = flat b st"
    "batchDepth st1 = batchDepth st" "notifications st1 = notifications st"
  using resolve_next_cases[OF assms(1)] assms(2) by auto

lemma setStore_merges:
  assumes "signal_peek s st = VRef p" "p < nextRef st"
    and "resolve_next next (VRef p) st = (VRef r, st1)"
  shows "setStore rec s next st =
     signal_set rec s (Plain (VRef (nextRef st1))) (allocated (spread2 (heap st1 p) (heap st1 r)) st1)"
  using assms by (simp add: setStore_def Let_def isObjectLike_def alloc_allocated deref_def)

lemma setStore_notifies:
  assumes "signal_peek s st = VRef p" "p < nextRef st"
    and "resolve_next next (VRef p) st = (VRef r, st1)"
  shows "setStore rec s next st =
     bind (notify_from rec (DSig s) 0
             (installed s (Plain (VRef (nextRef st1)))
                (allocated (spread2 (heap st1 p) (heap st1 r)) st1)))
       (\<lambda>_ st3. Some (Ok (VRef (nextRef st1)), st3))"
proof -
  have "sig_value (signals st1 s) = VRef p"
    using resolve_next_frame(3)[OF assms(3,2), of s] assms(1) by (simp add: signal_peek_def)
  moreover have "p \<noteq> nextRef st1"
    using resolve_next_frame(1)[OF assms(3,2)] by simp
  ultimately show ?thesis
    unfolding setStore_merges[OF assms]
    by (simp add: signal_set_def Let_def installed_def resolve_def values_of_def object_is_def)
qed

lemma setStore_flat:
  assumes "signal_peek s st = VRef p" "p < nextRef st"
    and "resolve_next next (VRef p) st = (VRef r, st1)"
    and "flat b st" "batchDepth st = 0" "length (subscribers_of (DSig s) st) \<le> n"
  shows "\<exists>st'. setStore (exec (Suc n)) s next st = Some (Ok (VRef (nextRef st1)), st') \<and>
     signal_peek s st' = VRef (nextRef st1) \<and>
     heap st' (nextRef st1) = spread2 (heap st1 p) (heap st1 r) \<and>
     heap st' p = heap st p \<and>
     notifications st' = notifications st + length (set_values (subscribers_of (DSig s) st))"
proof -
  let ?m = "nextRef st1"
  let ?st2 = "allocated (spread2 (heap st1 p) (heap st1 r)) st1"
  let ?cs = "set_values (subscribers_of (DSig s) st)"
  note frame = resolve_next_frame[OF assms(3,2)]
  have prev: "values_of st1 s = VRef p"
    using frame(3)[of s] assms(1) by (simp add: values_of_def signal_peek_def)
  have new: "\<not> object_is (values_of ?st2 s) (resolve (Plain (VRef ?m)) (values_of ?st2 s))"
    using frame(1) by (simp add: prev resolve_def object_is_def)
  have "signal_set (exec (Suc n)) s (Plain (VRef ?m)) ?st2
      = Some (Ok (resolve (Plain (VRef ?m)) (values_of ?st2 s)),
          fold (notify_rerun b) (set_values (subscribers_of (DSig s) ?st2))
            (installed s (Plain (VRef ?m)) ?st2))"
    using assms(4,5,6) frame new by (intro signal_set_flat) simp_all
  then have run: "setStore (exec (Suc n)) s next st
      = Some (Ok (VRef ?m), fold (notify_rerun b) ?cs (installed s (Plain (VRef ?m)) ?st2))"
    unfolding setStore_merges[OF assms(1,2,3)] using frame(4)[of "DSig s"]
    by (simp add: resolve_def)
  have peek: "signal_peek s (fold (notify_rerun b) ?cs (installed s (Plain (VRef ?m)) ?st2)) = VRef ?m"
  proof -
    have "values_of (fold (notify_rerun b) ?cs (installed s (Plain (VRef ?m)) ?st2)) s = VRef ?m"
      by (simp add: resolve_def)
    then show ?thesis by (simp only: signal_peek_values)
  qed
  show ?thesis
    using run peek frame(1,2,7)
    by (intro exI[of _ "fold (notify_rerun b) ?cs (installed s (Plain (VRef ?m)) ?st2)"])
       (simp add: notifications_fold_notify_rerun)
qed

lemma store_init_flat: "flat store_bodies store_init"
  by (simp add: flat_def store_bodies_def store_init_def init_state_def new_effect_def new_memo_def
      new_signal_def new_tracker_def subscribers_of_def tracker_of_def split: sub.splits)

lemma store_state_flat: "flat store_bodies store_state"
  unfolding store_state_def by (intro rerun_flat store_init_flat)

lemma store_init_simps:
  "values_of store_init = (\<lambda>_. VUndef)(0 := VRef 0)"
  "subscribers_of d store_init = []"
  "tracker_of t store_init = new_tracker"
  "batchDepth store_init = 0"
  "nextRef store_init = 3"
  "heap store_init = (\<lambda>_. Obj [])(0 := Obj [(Name ''count'', VNum 0), (Name ''nested'', VRef 1)],
                            1 := Obj [(Name ''enabled'', VBool True)],
                            2 := Obj [(Name ''count'', VNum 1)])"
  by (auto simp: store_init_def init_state_def new_effect_def new_memo_def values_of_def
      new_signal_def new_tracker_def subscribers_of_def tracker_of_def fun_eq_iff
      split: sub.splits dep.splits)

lemma store_state_simps:
  "signal_peek 0 store_state = VRef 0"
  "subscribers_of (DSig 0) store_state = [Some (TEffect 0)]"
  "batchDepth store_state = 0"
  "nextRef store_state = 3"
  "heap store_state = (\<lambda>_. Obj [])(0 := Obj [(Name ''count'', VNum 0), (Name ''nested'', VRef 1)],
                            1 := Obj [(Name ''enabled'', VBool True)],
                            2 := Obj [(Name ''count'', VNum 1)])"
  by (simp_all add: store_state_def store_init_simps rerun_subscribers rerun_tracker read_set_def
      store_bodies_def resub_def new_tracker_def set_add_def signal_peek_values)

section \<open>untrack and the collector stack\<close>

text \<open>
  C10. \<^verbatim>\<open>untrack\<close> suppresses only the innermost collector. With exactly one
  collector on the stack, the signal reads made inside \<^verbatim>\<open>untrack(fn)\<close> register
  nothing: the state after the call is the state before it. With two or more collectors
  on the stack, the same reads are added to the working set of the next-outer collector,
  and of no other; the popped collector is back on top afterwards.
\<close>

theorem untrack_innermost_only:
  "(collectorStack st = [t] \<longrightarrow>
      user_run (Untrack (of_reader r) Done) rec st = Some (Ok (result r (values_of st)), st)) \<and>
   (collectorStack st = t # outer # rest \<longrightarrow>
      user_run (Untrack (of_reader r) Done) rec st =
        Some (Ok (result r (values_of st)),
          set_tracker outer ((tracker_of outer st)\<lparr>collecting :=
            fold set_add (map DSig (reads r (values_of st))) (collecting (tracker_of outer st))\<rparr>) st))"
proof (intro conjI impI)
  assume stk: "collectorStack st = [t]"
  then have "collectorStack (popCollector st) = []" by simp
  from run_reader_untracked[OF this, of r rec] stk show
    "user_run (Untrack (of_reader r) Done) rec st = Some (Ok (result r (values_of st)), st)"
    by (simp add: untrack_def try_finally_def bind_def push_pop)
next
  assume stk: "collectorStack st = t # outer # rest"
  then have "collectorStack (popCollector st) = outer # rest" by simp
  from run_reader_tracked[OF this, of r rec] stk show
    "user_run (Untrack (of_reader r) Done) rec st =
        Some (Ok (result r (values_of st)),
          set_tracker outer ((tracker_of outer st)\<lparr>collecting :=
            fold set_add (map DSig (reads r (values_of st))) (collecting (tracker_of outer st))\<rparr>) st)"
    by (simp add: untrack_def try_finally_def bind_def push_pop pop_set_tracker[symmetric] del: pop_set_tracker)
qed

theorem untrack_innermost_only_witness:
  "collectorStack nested_state = TMemo 0 # TEffect 0 # [] \<and>
   user_run (Untrack (of_reader (RGet 3 RDone)) Done) (exec 0) nested_state =
     Some (Ok VUndef, set_tracker (TEffect 0) \<lparr>subscriptions = [], collecting = [Some (DSig 3)]\<rparr> nested_state) \<and>
   collecting (tracker_of (TMemo 0) nested_state) = []"
  using untrack_innermost_only[of nested_state "TMemo 0" "RGet 3 RDone" "exec 0" "TEffect 0" "[]"]
  by (simp add: nested_state_def init_state_def values_of_def new_signal_def tracker_of_def new_effect_def
      new_memo_def new_tracker_def set_add_def set_has_def)

section \<open>Dependency precision\<close>



section \<open>Reconciliation after a run\<close>

text \<open>
  C2. Tracker reconciliation. When every memo in the working set has a value at the end
  of the run, \<^verbatim>\<open>collect\<close> returns what the function returned or threw, and the
  subscription map then holds exactly the working set (lemma \<open>collect_reconciles\<close>).
  The run below is the other case. An effect reads signal 0 and then memo 0, whose
  compute function throws. The read of the memo puts it in the working set and throws;
  in the \<^verbatim>\<open>finally\<close> block \<^verbatim>\<open>reconcileSubscriptions\<close> subscribes to the signal, then
  calls \<^verbatim>\<open>subscribe\<close> on the memo, which adds the callback to the memo's subscribers and,
  the memo having no value, recomputes it and throws again before the entry is stored
  in the subscription map. So \<^verbatim>\<open>collect\<close> ends with the working set
  \<open>{signal 0, memo 0}\<close>, the subscription map \<open>{signal 0}\<close>, and the effect among the
  subscribers of memo 0 with no entry from which to unsubscribe it.
\<close>

theorem collect_throwing_memo:
  "map_option fst first_run = Some (Throw (VStr ''boom'')) \<and>
   working_set (TEffect 0) first_run = Some [DSig 0, DMemo 0] \<and>
   subscribed (TEffect 0) first_run = Some [DSig 0] \<and>
   holders (DMemo 0) first_run = Some [TEffect 0]"
  by code_simp

section \<open>Identity-gated notification\<close>

text \<open>
  C3. Identity-gated notification. Let \<open>v\<close> be the current value of signal \<open>s\<close> and
  \<open>w\<close> the value a \<^verbatim>\<open>set\<close> resolves to (the argument, or the updater applied to \<open>v\<close>).
  When \<open>w\<close> is identical to \<open>v\<close> the call returns \<open>w\<close> having only stored it: no
  subscriber is notified, whatever the subscribers are. Whenever a \<^verbatim>\<open>set\<close> returns
  (normally or by an exception of a subscriber), it has notified somebody exactly when
  \<open>w\<close> is not identical to \<open>v\<close> and the signal has a subscriber. In a graph whose
  computations read signals, with no batch open, a \<^verbatim>\<open>set\<close> of a non-identical value
  returns and notifies each subscriber once.
\<close>

theorem identity_gated_notification:
  "(object_is (values_of st s) (resolve a (values_of st s)) \<longrightarrow>
      exec (Suc n) (CSet s a) st = Some (Ok (resolve a (values_of st s)), installed s a st) \<and>
      notifications (installed s a st) = notifications st) \<and>
   (exec n (CSet s a) st = Some (r, st') \<longrightarrow>
      (notifications st < notifications st'
         \<longleftrightarrow> \<not> object_is (values_of st s) (resolve a (values_of st s))
              \<and> set_values (subscribers_of (DSig s) st) \<noteq> [])) \<and>
   (flat b st \<and> batchDepth st = 0 \<and> length (subscribers_of (DSig s) st) \<le> n \<and>
    \<not> object_is (values_of st s) (resolve a (values_of st s)) \<longrightarrow>
      (\<exists>st''. exec (Suc (Suc n)) (CSet s a) st = Some (Ok (resolve a (values_of st s)), st'') \<and>
         notifications st'' = notifications st + length (set_values (subscribers_of (DSig s) st))))"
proof (intro conjI impI)
  assume same: "object_is (values_of st s) (resolve a (values_of st s))"
  show "exec (Suc n) (CSet s a) st = Some (Ok (resolve a (values_of st s)), installed s a st)"
    using signal_set_same[OF same] by (simp add: exec.simps(2) step_def)
  show "notifications (installed s a st) = notifications st" by simp
next
  assume "exec n (CSet s a) st = Some (r, st')"
  then show "notifications st < notifications st'
         \<longleftrightarrow> \<not> object_is (values_of st s) (resolve a (values_of st s))
              \<and> set_values (subscribers_of (DSig s) st) \<noteq> []"
    by (rule set_gate)
next
  assume "flat b st \<and> batchDepth st = 0 \<and> length (subscribers_of (DSig s) st) \<le> n \<and>
    \<not> object_is (values_of st s) (resolve a (values_of st s))"
  then show "\<exists>st''. exec (Suc (Suc n)) (CSet s a) st = Some (Ok (resolve a (values_of st s)), st'') \<and>
         notifications st'' = notifications st + length (set_values (subscribers_of (DSig s) st))"
    by (intro set_announces_each[where b=b]) simp_all
qed

theorem identity_gated_notification_witness:
  "object_is (values_of demo_state 0) (VNum 1) \<and>
   exec (Suc 0) (CSet 0 (Plain (VNum 1))) demo_state
     = Some (Ok (VNum 1), installed 0 (Plain (VNum 1)) demo_state) \<and>
   notifications (installed 0 (Plain (VNum 1)) demo_state) = notifications demo_state \<and>
   flat demo_bodies demo_state \<and> batchDepth demo_state = 0 \<and>
   \<not> object_is (values_of demo_state 0) (VNum 2) \<and>
   (\<exists>st'. exec (Suc (Suc (Suc 0))) (CSet 0 (Plain (VNum 2))) demo_state = Some (Ok (VNum 2), st') \<and>
      notifications st' = notifications demo_state + 1 \<and>
      notifications demo_state < notifications st')"
proof -
  have same: "object_is (values_of demo_state 0) (resolve (Plain (VNum 1)) (values_of demo_state 0))"
    and new: "\<not> object_is (values_of demo_state 0) (resolve (Plain (VNum 2)) (values_of demo_state 0))"
    and res: "resolve (Plain (VNum 1)) (values_of demo_state 0) = VNum 1"
      "resolve (Plain (VNum 2)) (values_of demo_state 0) = VNum 2"
    and subs: "set_values (subscribers_of (DSig 0) demo_state) = [TEffect 0]"
      "length (subscribers_of (DSig 0) demo_state) \<le> Suc 0"
    by (simp_all add: demo_state_simps resolve_def object_is_def)
  from identity_gated_notification[of demo_state 0 "Plain (VNum 1)" 0] same res(1)
  have one: "exec (Suc 0) (CSet 0 (Plain (VNum 1))) demo_state
     = Some (Ok (VNum 1), installed 0 (Plain (VNum 1)) demo_state)"
    "notifications (installed 0 (Plain (VNum 1)) demo_state) = notifications demo_state"
    by (simp_all del: exec_Suc)
  from identity_gated_notification[of demo_state 0 "Plain (VNum 2)" "Suc 0" _ _ demo_bodies]
    demo_state_flat demo_state_simps(5) subs(2) new
  obtain st1 where run: "exec (Suc (Suc (Suc 0))) (CSet 0 (Plain (VNum 2))) demo_state
       = Some (Ok (resolve (Plain (VNum 2)) (values_of demo_state 0)), st1)"
    and cnt: "notifications st1 = notifications demo_state
       + length (set_values (subscribers_of (DSig 0) demo_state))"
    by blast
  from identity_gated_notification[of demo_state 0 "Plain (VNum 2)" "Suc (Suc (Suc 0))"
      "Ok (resolve (Plain (VNum 2)) (values_of demo_state 0))" st1] run new subs(1)
  have more: "notifications demo_state < notifications st1"
    by (simp del: exec_Suc)
  have two: "\<exists>st'. exec (Suc (Suc (Suc 0))) (CSet 0 (Plain (VNum 2))) demo_state = Some (Ok (VNum 2), st') \<and>
      notifications st' = notifications demo_state + 1 \<and>
      notifications demo_state < notifications st'"
    using run cnt more res(2) subs(1) by (intro exI[of _ st1]) (simp del: exec_Suc)
  show ?thesis
    using one two demo_state_flat demo_state_simps(5) same new res by (simp del: exec_Suc)
qed

section \<open>Batching\<close>



section \<open>Effects that are notified while they run\<close>



section \<open>Reading a memo\<close>




section \<open>Immutable stores reject direct writes\<close>

text \<open>
  C8. Immutable-store mutation atomicity. For the view that \<^verbatim>\<open>createStore\<close> returns and
  for the proxy of any path of it, an assignment to a property and the deletion of a
  property throw the error \<^verbatim>\<open>Cannot mutate immutable store. Use setStore instead.\<close>
  and leave the whole state as it was: the signal of the store holds the same root, and
  nothing was notified. The proxies that the \<^verbatim>\<open>get\<close> trap returns for nested objects
  are proxies of the same immutable store, one path segment deeper.
\<close>

theorem immutable_store_rejects_writes:
  "proxy_set rec (createAtPath (fst (createStore s v0 st0)) path) prop x st
     = Some (Throw cannot_mutate, st) \<and>
   proxy_delete rec (createAtPath (fst (createStore s v0 st0)) path) prop st
     = Some (Throw cannot_mutate, st) \<and>
   (proxy_get (createAtPath (fst (createStore s v0 st0)) path) prop st = (View w, st1) \<longrightarrow>
      w = createAtPath (fst (createStore s v0 st0)) (path @ [prop]))"
  using proxy_get_view[of "createAtPath (fst (createStore s v0 st0)) path" "prop" st w st1]
  by (simp add: proxy_set_def proxy_delete_def)

theorem immutable_store_rejects_writes_witness:
  "proxy_set (exec 0) (createAtPath settings_view []) (Name ''count'') (VNum 1) settings
     = Some (Throw cannot_mutate, settings) \<and>
   proxy_delete (exec 0) (createAtPath settings_view []) (Name ''count'') settings
     = Some (Throw cannot_mutate, settings) \<and>
   fst (proxy_get (createAtPath settings_view []) (Name ''nested'') settings)
     = View (createAtPath settings_view [Name ''nested'']) \<and>
   proxy_set (exec 0) (createAtPath settings_view [Name ''nested'']) (Name ''enabled'') (VBool False)
       settings
     = Some (Throw cannot_mutate, settings) \<and>
   signal_peek 0 settings = VRef 0"
proof -
  let ?root = "createAtPath settings_view []"
  let ?got = "proxy_get ?root (Name ''nested'') settings"
  have nested: "\<exists>w. fst ?got = View w"
    by (simp add: proxy_get_def signal_get_def settings_def settings_view_def createStore_def
        createReactiveProxy_def createAtPath_def trackDependency_def currentCollector_def
        init_state_def get_prop_def isObjectLike_def MUTATING_ARRAY_METHODS_def Let_def
        split: prod.splits)
  then obtain w where w: "?got = (View w, snd ?got)"
    by (metis prod.collapse)
  from immutable_store_rejects_writes[of "exec 0" 0 "VRef 0" init_state "[]" "Name ''count''"
      "VNum 1" settings]
  have one: "proxy_set (exec 0) ?root (Name ''count'') (VNum 1) settings
       = Some (Throw cannot_mutate, settings)"
    "proxy_delete (exec 0) ?root (Name ''count'') settings = Some (Throw cannot_mutate, settings)"
    by (simp_all add: settings_view_def)
  have "w = createAtPath (fst (createStore 0 (VRef 0) init_state)) ([] @ [Name ''nested''])"
    by (rule immutable_store_rejects_writes[of "exec 0" 0 "VRef 0" init_state "[]" "Name ''nested''"
          VUndef settings w, THEN conjunct2, THEN conjunct2, THEN mp,
          OF w[unfolded settings_view_def]])
  then have two: "fst ?got = View (createAtPath settings_view [Name ''nested''])"
    using w by (metis append_Nil fst_conv settings_view_def)
  from immutable_store_rejects_writes[of "exec 0" 0 "VRef 0" init_state "[Name ''nested'']"
      "Name ''enabled''" "VBool False" settings]
  have three: "proxy_set (exec 0) (createAtPath settings_view [Name ''nested'']) (Name ''enabled'')
       (VBool False) settings = Some (Throw cannot_mutate, settings)"
    by (simp add: settings_view_def)
  have four: "signal_peek 0 settings = VRef 0"
    by (simp add: signal_peek_def settings_def createStore_def)
  show ?thesis using one two three four by simp
qed

section \<open>The setter of an immutable store\<close>

text \<open>
  C9. Immutable-store setter contract. The previous root is an object \<open>P\<close>, and the
  argument of \<^verbatim>\<open>setStore\<close> (a replacement, a patch, or an updater applied to \<open>P\<close>)
  resolves to an object \<open>R\<close>. Then \<^verbatim>\<open>setStore\<close> allocates a new object, installs it as
  the root and enters the notification loop of the signal: its reference differs from
  \<open>P\<close>, so the identity check of \<^verbatim>\<open>set\<close> passes. The properties of the new root are
  those of \<open>P\<close> overridden by those of \<open>R\<close>: a key of \<open>P\<close> absent from \<open>R\<close> keeps its
  value, and a key of \<open>R\<close> has the value \<open>R\<close> gives it, nested objects included (no deep
  merge); \<open>P\<close> itself is not modified. In a graph whose computations read signals, with
  no batch open, the call returns the new root and each subscriber of the store has
  been notified once.
\<close>

theorem setStore_shallow_merge:
  assumes "signal_peek s st = VRef p" "p < nextRef st"
    and "resolve_next next (VRef p) st = (VRef r, st1)"
  shows "setStore rec s next st =
           bind (notify_from rec (DSig s) 0
                   (installed s (Plain (VRef (nextRef st1)))
                      (allocated (spread2 (heap st1 p) (heap st1 r)) st1)))
             (\<lambda>_ st3. Some (Ok (VRef (nextRef st1)), st3)) \<and>
         nextRef st1 \<noteq> p \<and>
         (distinct (map fst (props_of (heap st1 r))) \<longrightarrow>
            map_of (props_of (spread2 (heap st1 p) (heap st1 r)))
              = map_of (props_of (heap st p)) ++ map_of (props_of (heap st1 r))) \<and>
         (flat b st \<and> batchDepth st = 0 \<and> length (subscribers_of (DSig s) st) \<le> n \<longrightarrow>
            (\<exists>st'. setStore (exec (Suc n)) s next st = Some (Ok (VRef (nextRef st1)), st') \<and>
               signal_peek s st' = VRef (nextRef st1) \<and>
               heap st' (nextRef st1) = spread2 (heap st1 p) (heap st1 r) \<and>
               heap st' p = heap st p \<and>
               notifications st' = notifications st
                 + length (set_values (subscribers_of (DSig s) st))))"
proof (intro conjI impI)
  show "setStore rec s next st =
           bind (notify_from rec (DSig s) 0
                   (installed s (Plain (VRef (nextRef st1)))
                      (allocated (spread2 (heap st1 p) (heap st1 r)) st1)))
             (\<lambda>_ st3. Some (Ok (VRef (nextRef st1)), st3))"
    by (rule setStore_notifies[OF assms])
  show "nextRef st1 \<noteq> p"
    using resolve_next_frame(1)[OF assms(3,2)] by simp
next
  assume "distinct (map fst (props_of (heap st1 r)))"
  then show "map_of (props_of (spread2 (heap st1 p) (heap st1 r)))
              = map_of (props_of (heap st p)) ++ map_of (props_of (heap st1 r))"
    using resolve_next_frame(2)[OF assms(3,2)] by (simp add: props_of_spread2)
next
  assume "flat b st \<and> batchDepth st = 0 \<and> length (subscribers_of (DSig s) st) \<le> n"
  then show "\<exists>st'. setStore (exec (Suc n)) s next st = Some (Ok (VRef (nextRef st1)), st') \<and>
               signal_peek s st' = VRef (nextRef st1) \<and>
               heap st' (nextRef st1) = spread2 (heap st1 p) (heap st1 r) \<and>
               heap st' p = heap st p \<and>
               notifications st' = notifications st
                 + length (set_values (subscribers_of (DSig s) st))"
    by (intro setStore_flat[OF assms, where b=b]) simp_all
qed

theorem setStore_shallow_merge_witness:
  "signal_peek 0 store_state = VRef 0 \<and> flat store_bodies store_state \<and>
   distinct (map fst (props_of (heap store_state 2))) \<and>
   map_of (props_of (spread2 (heap store_state 0) (heap store_state 2)))
     = map_of (props_of (heap store_state 0)) ++ map_of (props_of (heap store_state 2)) \<and>
   (\<exists>st'. setStore (exec (Suc (Suc 0))) 0 (Next (VRef 2)) store_state = Some (Ok (VRef 3), st') \<and>
      signal_peek 0 st' = VRef 3 \<and>
      heap st' 3 = Obj [(Name ''count'', VNum 1), (Name ''nested'', VRef 1)] \<and>
      heap st' 0 = Obj [(Name ''count'', VNum 0), (Name ''nested'', VRef 1)] \<and>
      notifications st' = notifications store_state + 1) \<and>
   (\<exists>st'. setStore (exec (Suc (Suc 0))) 0 (NextFn bump) store_state = Some (Ok (VRef 4), st') \<and>
      signal_peek 0 st' = VRef 4 \<and>
      heap st' 4 = Obj [(Name ''count'', VNum 1), (Name ''nested'', VRef 1)])"
proof -
  have prev: "signal_peek 0 store_state = VRef 0" "0 < nextRef store_state"
    by (simp_all add: store_state_simps)
  have fl: "flat store_bodies store_state \<and> batchDepth store_state = 0 \<and>
      length (subscribers_of (DSig 0) store_state) \<le> Suc 0"
    by (simp add: store_state_flat store_state_simps)
  have wf: "distinct (map fst (props_of (heap store_state 2)))"
    by (simp add: store_state_simps props_of_def)
  have patch: "resolve_next (Next (VRef 2)) (VRef 0) store_state = (VRef 2, store_state)"
    by (simp add: resolve_next_def)
  let ?made = "Obj [(Name ''count'', VNum 1)]"
  have fn: "resolve_next (NextFn bump) (VRef 0) store_state = (VRef 3, allocated ?made store_state)"
    by (simp add: resolve_next_def bump_def alloc_allocated store_state_simps get_prop_def)
  note one = setStore_shallow_merge[OF prev patch, of "exec 0" store_bodies "Suc 0"]
  note two = setStore_shallow_merge[OF prev fn, of "exec 0" store_bodies "Suc 0"]
  from one wf have law: "map_of (props_of (spread2 (heap store_state 0) (heap store_state 2)))
     = map_of (props_of (heap store_state 0)) ++ map_of (props_of (heap store_state 2))"
    by blast
  from one fl obtain st1 where r1:
    "setStore (exec (Suc (Suc 0))) 0 (Next (VRef 2)) store_state = Some (Ok (VRef (nextRef store_state)), st1)"
    "signal_peek 0 st1 = VRef (nextRef store_state)"
    "heap st1 (nextRef store_state) = spread2 (heap store_state 0) (heap store_state 2)"
    "heap st1 0 = heap store_state 0"
    "notifications st1 = notifications store_state
       + length (set_values (subscribers_of (DSig 0) store_state))"
    by blast
  have a: "\<exists>st'. setStore (exec (Suc (Suc 0))) 0 (Next (VRef 2)) store_state = Some (Ok (VRef 3), st') \<and>
      signal_peek 0 st' = VRef 3 \<and>
      heap st' 3 = Obj [(Name ''count'', VNum 1), (Name ''nested'', VRef 1)] \<and>
      heap st' 0 = Obj [(Name ''count'', VNum 0), (Name ''nested'', VRef 1)] \<and>
      notifications st' = notifications store_state + 1"
    using r1 by (intro exI[of _ st1])
      (simp add: store_state_simps spread2_def props_of_def del: exec_Suc)
  from two fl obtain st2 where r2:
    "setStore (exec (Suc (Suc 0))) 0 (NextFn bump) store_state
       = Some (Ok (VRef (nextRef (allocated ?made store_state))), st2)"
    "signal_peek 0 st2 = VRef (nextRef (allocated ?made store_state))"
    "heap st2 (nextRef (allocated ?made store_state))
       = spread2 (heap (allocated ?made store_state) 0) (heap (allocated ?made store_state) 3)"
    by blast
  have b: "\<exists>st'. setStore (exec (Suc (Suc 0))) 0 (NextFn bump) store_state = Some (Ok (VRef 4), st') \<and>
      signal_peek 0 st' = VRef 4 \<and>
      heap st' 4 = Obj [(Name ''count'', VNum 1), (Name ''nested'', VRef 1)]"
    using r2 by (intro exI[of _ st2])
      (simp add: store_state_simps spread2_def props_of_def del: exec_Suc)
  show ?thesis using prev(1) fl wf law a b by blast
qed

end
